theory Spec2Isabelle
  imports Complex_Main
begin

section \<open>The renderer of term-ui (src/drawer.js)\<close>

text \<open>
  The class \<^verbatim>\<open>renderer\<close> turns tagged text entries into rows of positioned
  text runs, keeps every row in \<^verbatim>\<open>cacheLogs\<close> and draws the window
  \<^verbatim>\<open>renderLogs\<close> of it.  The embedding below follows the methods of the class one by
  one.  Pixel quantities are JavaScript numbers in the source; they are exact rationals here,
  so rounding of doubles is not part of the model.  A \<^typ>\<open>char\<close> stands for one code
  point of a JavaScript string (the unit that \<^verbatim>\<open>[...word]\<close> iterates over).
\<close>

subsection \<open>Data\<close>

datatype kind = INPUT | OUTPUT

text \<open>
  The argument of \<^verbatim>\<open>emit\<close> after validation: \<^verbatim>\<open>type\<close> is one of the two
  constants, \<^verbatim>\<open>text\<close> is a string and \<^verbatim>\<open>replace\<close> is undefined
  (\<open>None\<close>) or a boolean.  The validator (an external library) rejects every other shape, so
  the type \<open>entry\<close> holds exactly the arguments that pass it.
\<close>

record entry =
  type :: kind
  "text" :: string
  replace :: "bool option"

text \<open>
  A log is built as \<^verbatim>\<open>{...data, width, left, text, color, background}\<close>: the fields
  of the entry, with \<^verbatim>\<open>text\<close> overwritten, and the layout fields.  \<open>oid\<close> is
  the identity of the JavaScript object (the source compares logs with \<^verbatim>\<open>===\<close>);
  attribute values are \<open>None\<close> for \<^verbatim>\<open>null\<close>.
\<close>

record log = entry +
  oid :: nat
  width :: rat
  left :: rat
  color :: "string option"
  background :: "string option"

text \<open>
  A slot of \<^verbatim>\<open>result\<close>, \<^verbatim>\<open>cacheLogs\<close> or \<^verbatim>\<open>renderLogs\<close>: an array of
  logs, or \<open>None\<close> for a hole of a sparse array and for the \<^verbatim>\<open>undefined\<close> that
  spreading a hole produces.
\<close>

type_synonym slot = "log list option"

text \<open>
  A child node of the scratch element: its \<^verbatim>\<open>textContent\<close> and, for an element,
  its \<^verbatim>\<open>getAttribute\<close> (text nodes have none).
\<close>

record node =
  textContent :: string
  getAttribute :: "(string \<Rightarrow> string option) option"

text \<open>
  The host object \<^verbatim>\<open>term\<close> of the constructor: the canvas size, the options, the focus flag, and the
  three collaborators whose code is not part of the class: text measurement of the canvas
  context, \<^verbatim>\<open>escape\<close> of the utilities, and the markup parser behind
  \<^verbatim>\<open>innerHTML\<close>.
\<close>

record terminal =
  canvasWidth :: rat
  canvasHeight :: rat
  pixelRatio :: rat
  fontSize :: rat
  fontFamily :: string
  fontColor :: string
  backgroundColor :: string
  title :: string
  prefix :: string
  isFocus :: bool
  measureText :: "string \<Rightarrow> rat"
  escape :: "string \<Rightarrow> string"
  parseHTML :: "string \<Rightarrow> node list"

datatype event = Size rat rat rat | Cursor rat rat | Scroll rat rat

datatype draw =
  FillRect string rat rat rat rat
  | FillText string string rat rat
  | Arc string rat rat rat

datatype error = TypeError

text \<open>
  The mutable fields of the renderer, the notifications sent with \<^verbatim>\<open>term.emit\<close> and
  the calls made on the canvas context, both in order.
\<close>

record renderer =
  cacheLogs :: "slot list"
  renderLogs :: "slot list"
  scrollHeight :: "rat option"
  scrollTop :: "rat option"
  cursor :: bool
  nextOid :: nat
  emitted :: "event list"
  canvas :: "draw list"

subsection \<open>Layout constants of the constructor\<close>

definition contentPadding :: "terminal \<Rightarrow> nat \<Rightarrow> rat" where
  "contentPadding t i = map (\<lambda>item. item * pixelRatio t) [45, 15, 15, 15] ! i"

definition contentHeight :: "terminal \<Rightarrow> rat" where
  "contentHeight t = canvasHeight t - contentPadding t 0 - contentPadding t 2"

definition contentWidth :: "terminal \<Rightarrow> rat" where
  "contentWidth t = canvasWidth t - contentPadding t 1 - contentPadding t 3"

definition logGap :: "terminal \<Rightarrow> rat" where
  "logGap t = 10 * pixelRatio t"

text \<open>\<^verbatim>\<open>this.fontSize\<close>, the font size in canvas pixels.\<close>

definition fontSizePx :: "terminal \<Rightarrow> rat" where
  "fontSizePx t = fontSize t * pixelRatio t"

definition btnColor :: "string list" where
  "btnColor = [''#FF5F56'', ''#FFBD2E'', ''#27C93F'']"

definition btnSize :: "terminal \<Rightarrow> rat" where
  "btnSize t = 6 * pixelRatio t"

definition cursorColor :: "terminal \<Rightarrow> string list" where
  "cursorColor t = [''#FFF'', backgroundColor t]"

definition cursorSize :: "terminal \<Rightarrow> rat" where
  "cursorSize t = 5 * pixelRatio t"

text \<open>\<^verbatim>\<open>Math.floor\<close> of the exact quotient.  The source divides doubles, so for a
  pixel ratio that is not a binary fraction its quotient can fall on the other side of an
  integer; the two agree when the pixel ratio and the sizes are integers, as in the examples
  below.\<close>

definition maxLength :: "terminal \<Rightarrow> int" where
  "maxLength t = \<lfloor>contentHeight t / (fontSizePx t + logGap t)\<rfloor>"

subsection \<open>Arrays\<close>

text \<open>\<^verbatim>\<open>Array.prototype.slice\<close> on integer arguments: a negative index counts from
  the end, and both ends are clamped to the array.\<close>

definition slice :: "'a list \<Rightarrow> int \<Rightarrow> int \<Rightarrow> 'a list" where
  "slice xs start fin =
     (let len = int (length xs);
          k = (if start < 0 then max (len + start) 0 else min start len);
          final = (if fin < 0 then max (len + fin) 0 else min fin len)
      in take (nat (final - k)) (drop (nat k) xs))"

text \<open>\<^verbatim>\<open>slice\<close> with one argument: the end is the length.\<close>

definition slice_from :: "'a list \<Rightarrow> int \<Rightarrow> 'a list" where
  "slice_from xs start = slice xs start (int (length xs))"

text \<open>\<^verbatim>\<open>xs[xs.length - 1]\<close>, undefined on the empty array.\<close>

definition lastSlot :: "slot list \<Rightarrow> slot" where
  "lastSlot xs = (if xs = [] then None else last xs)"

fun indexOf_from :: "'a list \<Rightarrow> 'a \<Rightarrow> int \<Rightarrow> int" where
  "indexOf_from [] x i = - 1"
| "indexOf_from (y # ys) x i = (if y = x then i else indexOf_from ys x (i + 1))"

text \<open>
  \<^verbatim>\<open>cacheLogs.indexOf(lastlogs)\<close> compares arrays by identity.  Every log holds its
  own \<open>oid\<close>, so two arrays of logs built by \<open>parse\<close> are equal only if they are
  the same array.
\<close>

definition indexOf :: "slot list \<Rightarrow> slot \<Rightarrow> int" where
  "indexOf xs x = indexOf_from xs x 0"

text \<open>
  The statement \<^verbatim>\<open>if (result[index]) result[index].push(log) else result[index] = [log]\<close>.
  Writing past the end leaves holes between the old end and the new slot.
\<close>

definition result_push :: "slot list \<Rightarrow> nat \<Rightarrow> log \<Rightarrow> slot list" where
  "result_push result index lg =
     (if index < length result then
        (case result ! index of
           Some g \<Rightarrow> result[index := Some (g @ [lg])]
         | None \<Rightarrow> result[index := Some [lg]])
      else result @ replicate (index - length result) None @ [Some [lg]])"

subsection \<open>Splitting the text and removing script elements\<close>

text \<open>\<^verbatim>\<open>text.split(/\r?\n/)\<close>: the first argument is the line read so far.\<close>

fun split_acc :: "string \<Rightarrow> string \<Rightarrow> string list" where
  "split_acc acc [] = [acc]"
| "split_acc acc (c # cs) =
     (if c = CHR 0x0A then acc # split_acc [] cs
      else if c = CHR 0x0D \<and> cs \<noteq> [] \<and> hd cs = CHR 0x0A then acc # split_acc [] (tl cs)
      else split_acc (acc @ [c]) cs)"

definition split_lines :: "string \<Rightarrow> string list" where
  "split_lines s = split_acc [] s"

text \<open>A pattern of letters matched without regard to case: each letter with its capital.\<close>

fun ci_prefix :: "(char \<times> char) list \<Rightarrow> string \<Rightarrow> string option" where
  "ci_prefix [] s = Some s"
| "ci_prefix (p # ps) [] = None"
| "ci_prefix (p # ps) (c # cs) =
     (if c = fst p \<or> c = snd p then ci_prefix ps cs else None)"

definition script_open :: "(char \<times> char) list" where
  "script_open = zip ''<script'' ''<SCRIPT''"

definition script_close :: "(char \<times> char) list" where
  "script_close = zip ''</script>'' ''</SCRIPT>''"

definition wordChar :: "char \<Rightarrow> bool" where
  "wordChar c = (c \<in> set ''abcdefghijklmnopqrstuvwxyzABCDEFGHIJKLMNOPQRSTUVWXYZ0123456789_'')"

text \<open>The text after the first closing tag, if there is one.\<close>

fun find_close :: "string \<Rightarrow> string option" where
  "find_close [] = None"
| "find_close (c # cs) =
     (case ci_prefix script_close (c # cs) of
        Some rest \<Rightarrow> Some rest
      | None \<Rightarrow> find_close cs)"

text \<open>
  A match of \<^verbatim>\<open>/<script\b[^<]*(?:(?!<\/script>)<[^<]*)*<\/script>/gi\<close> at the start
  of the string, giving the text after the match.  After the opening letters and the word
  boundary the expression runs over text that holds no closing tag and stops at the first one.
\<close>

definition match_script :: "string \<Rightarrow> string option" where
  "match_script s =
     (case ci_prefix script_open s of
        None \<Rightarrow> None
      | Some r \<Rightarrow> (if r \<noteq> [] \<and> wordChar (hd r) then None else find_close r))"

lemma ci_prefix_length: "ci_prefix ps s = Some r \<Longrightarrow> length r + length ps = length s"
  by (induction ps s rule: ci_prefix.induct) (auto split: if_splits)

lemma find_close_length: "find_close s = Some r \<Longrightarrow> length r < length s"
proof (induction s)
  case Nil
  then show ?case by simp
next
  case (Cons c cs)
  show ?case
  proof (cases "ci_prefix script_close (c # cs)")
    case None
    with Cons show ?thesis by fastforce
  next
    case (Some rest)
    with Cons.prems have "r = rest" by simp
    with Some have "length r + length script_close = length (c # cs)"
      by (simp only: ci_prefix_length)
    then show ?thesis by (simp add: script_close_def)
  qed
qed

lemma match_script_length: "match_script s = Some r \<Longrightarrow> length r < length s"
  unfolding match_script_def
  by (auto split: option.splits if_splits dest!: ci_prefix_length find_close_length)

text \<open>\<^verbatim>\<open>line.replace(scriptReg, '')\<close>: every match is removed, from left to right.\<close>

function stripScript :: "string \<Rightarrow> string" where
  "stripScript [] = []"
| "stripScript (c # cs) =
     (case match_script (c # cs) of
        Some rest \<Rightarrow> stripScript rest
      | None \<Rightarrow> c # stripScript cs)"
  by pat_completeness auto
termination
  by (relation "measure length") (auto dest: match_script_length)

text \<open>
  The child nodes of the scratch element after \<^verbatim>\<open>innerHTML\<close> is set to the line
  without its script elements.  Setting \<^verbatim>\<open>innerHTML\<close> to the empty string removes
  every child; any other markup is parsed by the host.
\<close>

definition childNodes :: "terminal \<Rightarrow> string \<Rightarrow> node list" where
  "childNodes t line =
     (let html = stripScript line in if html = [] then [] else parseHTML t html)"

text \<open>\<^verbatim>\<open>[...word]\<close>: one string for each code point.\<close>

definition letters :: "string \<Rightarrow> string list" where
  "letters word = map (\<lambda>c. [c]) word"

subsection \<open>parse\<close>

text \<open>The local variables of \<open>parse\<close> that its loops change, and the next free object
  identity.\<close>

record pstate =
  p_result :: "slot list"
  p_index :: nat
  p_left :: rat
  p_oid :: nat

definition mk_log ::
  "entry \<Rightarrow> nat \<Rightarrow> rat \<Rightarrow> rat \<Rightarrow> string \<Rightarrow> string option \<Rightarrow> string option \<Rightarrow> log" where
  "mk_log data i w l tx col bg =
     \<lparr>type = type data, text = tx, replace = replace data,
      oid = i, width = w, left = l, color = col, background = bg\<rparr>"

text \<open>
  The three places that build a log end with the same statement: the log, a new object, is
  pushed on \<^verbatim>\<open>result[index]\<close> or becomes its first element.
\<close>

definition add_log ::
  "entry \<Rightarrow> rat \<Rightarrow> rat \<Rightarrow> string \<Rightarrow> string option \<Rightarrow> string option \<Rightarrow> pstate \<Rightarrow> pstate" where
  "add_log data w l tx col bg ps =
     ps\<lparr>p_result := result_push (p_result ps) (p_index ps) (mk_log data (p_oid ps) w l tx col bg),
        p_oid := p_oid ps + 1\<rparr>"

text \<open>The loop over the letters of a word that does not fit; it returns
  \<^verbatim>\<open>textTmp\<close>, \<^verbatim>\<open>isNewLine\<close> and the changed locals.\<close>

fun letters_loop ::
  "terminal \<Rightarrow> entry \<Rightarrow> string option \<Rightarrow> string option \<Rightarrow> rat \<Rightarrow> string list \<Rightarrow>
   string \<Rightarrow> bool \<Rightarrow> pstate \<Rightarrow> string \<times> bool \<times> pstate" where
  "letters_loop t data col bg lastLeft [] textTmp isNewLine ps = (textTmp, isNewLine, ps)"
| "letters_loop t data col bg lastLeft (letter # rest) textTmp isNewLine ps =
     (let letterSize = measureText t letter;
          nextLetterWidth = p_left ps + letterSize
      in if nextLetterWidth < contentWidth t then
           letters_loop t data col bg lastLeft rest (textTmp @ letter) isNewLine
             (ps\<lparr>p_left := nextLetterWidth\<rparr>)
         else
           letters_loop t data col bg lastLeft rest letter True
             ((add_log data (measureText t textTmp)
                 (if isNewLine then contentPadding t 3 else lastLeft) textTmp col bg ps)
                \<lparr>p_index := p_index ps + 1,
                 p_left := contentPadding t 3 + letterSize\<rparr>))"

text \<open>The body of the loop over the child nodes.\<close>

definition parse_word :: "terminal \<Rightarrow> entry \<Rightarrow> node \<Rightarrow> pstate \<Rightarrow> pstate" where
  "parse_word t data child ps =
     (let word = textContent child;
          wordSize = measureText t word;
          col = (case getAttribute child of Some g \<Rightarrow> g ''color'' | None \<Rightarrow> Some []);
          bg = (case getAttribute child of Some g \<Rightarrow> g ''background'' | None \<Rightarrow> Some []);
          nextWordWidth = p_left ps + wordSize
      in if nextWordWidth > contentWidth t then
           (case letters_loop t data col bg (p_left ps) (letters word) [] False ps of
              (textTmp, isNewLine, ps') \<Rightarrow>
                add_log data (measureText t textTmp) (contentPadding t 3) textTmp col bg ps')
         else
           (add_log data wordSize (p_left ps) word col bg ps)\<lparr>p_left := nextWordWidth\<rparr>)"

fun parse_nodes :: "terminal \<Rightarrow> entry \<Rightarrow> node list \<Rightarrow> pstate \<Rightarrow> pstate" where
  "parse_nodes t data [] ps = ps"
| "parse_nodes t data (child # rest) ps = parse_nodes t data rest (parse_word t data child ps)"

fun parse_lines :: "terminal \<Rightarrow> entry \<Rightarrow> string list \<Rightarrow> pstate \<Rightarrow> pstate" where
  "parse_lines t data [] ps = ps"
| "parse_lines t data (line # rest) ps =
     parse_lines t data rest
       ((parse_nodes t data (childNodes t line) ps)
          \<lparr>p_index := p_index (parse_nodes t data (childNodes t line) ps) + 1,
           p_left := contentPadding t 3\<rparr>)"

text \<open>The entry as \<open>parse\<close> leaves it: the text of an input entry is overwritten in
  place.\<close>

definition prefixed :: "terminal \<Rightarrow> entry \<Rightarrow> entry" where
  "prefixed t data =
     (if type data = INPUT then data\<lparr>text := prefix t @ escape t (text data)\<rparr> else data)"

text \<open>\<open>parse\<close> returns the array \<^verbatim>\<open>result\<close>, the caller's entry object as it now
  is, and the next free object identity.\<close>

definition parse :: "terminal \<Rightarrow> entry \<Rightarrow> nat \<Rightarrow> slot list \<times> entry \<times> nat" where
  "parse t data n =
     (let data' = prefixed t data;
          ps = parse_lines t data' (split_lines (text data'))
                 \<lparr>p_result = [], p_index = 0, p_left = contentPadding t 3, p_oid = n\<rparr>
      in (p_result ps, data', p_oid ps))"

subsection \<open>Drawing\<close>

text \<open>
  Modelled from the spec: \<^verbatim>\<open>clamp\<close> of the utilities module, which is not part
  of the class.  The spec says of the two values of a scroll notification that they are
  clamped to be at least 0; the call is \<^verbatim>\<open>clamp(x, 0, Infinity)\<close>, and the upper
  bound \<open>None\<close> stands for \<^verbatim>\<open>Infinity\<close>.
\<close>

definition clamp :: "rat \<Rightarrow> rat \<Rightarrow> rat option \<Rightarrow> rat" where
  "clamp x lo hi = (case hi of None \<Rightarrow> max lo x | Some h \<Rightarrow> max lo (min h x))"

text \<open>The getters \<^verbatim>\<open>lastCacheLog\<close> and \<^verbatim>\<open>lastRenderLog\<close>, on the array
  they read.\<close>

definition lastLog :: "slot list \<Rightarrow> log option" where
  "lastLog xs =
     (case lastSlot xs of
        None \<Rightarrow> None
      | Some logs \<Rightarrow> (if logs = [] then None else Some (last logs)))"

definition cacheEditable :: "terminal \<Rightarrow> renderer \<Rightarrow> bool" where
  "cacheEditable t r =
     (isFocus t \<and>
      (case lastLog (cacheLogs r) of None \<Rightarrow> False | Some lg \<Rightarrow> type lg = INPUT))"

text \<open>\<^verbatim>\<open>a === b\<close> on two values that are logs or undefined.\<close>

definition same_log :: "log option \<Rightarrow> log option \<Rightarrow> bool" where
  "same_log a b =
     (case a of
        None \<Rightarrow> b = None
      | Some x \<Rightarrow> (case b of None \<Rightarrow> False | Some y \<Rightarrow> oid x = oid y))"

definition renderEditable :: "terminal \<Rightarrow> renderer \<Rightarrow> bool" where
  "renderEditable t r =
     (cacheEditable t r \<and> same_log (lastLog (cacheLogs r)) (lastLog (renderLogs r)))"

text \<open>\<^verbatim>\<open>cursorPos\<close>, as the pair of \<^verbatim>\<open>left\<close> and \<^verbatim>\<open>top\<close>.  When
  \<open>renderEditable\<close> holds the last drawn log exists, so the second case is the
  \<^verbatim>\<open>return { left: 0, top: 0 }\<close> of the source.\<close>

definition cursorPos :: "terminal \<Rightarrow> renderer \<Rightarrow> rat \<times> rat" where
  "cursorPos t r =
     (case (renderEditable t r, lastLog (renderLogs r)) of
        (True, Some lg) \<Rightarrow>
          (left lg + width lg + pixelRatio t * 4,
           contentPadding t 0
             + (fontSizePx t + logGap t) * (of_nat (length (renderLogs r)) - 1))
      | _ \<Rightarrow> (0, 0))"

definition renderBackground :: "terminal \<Rightarrow> renderer \<Rightarrow> renderer" where
  "renderBackground t r =
     r\<lparr>canvas := canvas r @ [FillRect (backgroundColor t) 0 0 (canvasWidth t) (canvasHeight t)]\<rparr>"

definition renderTopbar :: "terminal \<Rightarrow> renderer \<Rightarrow> renderer" where
  "renderTopbar t r =
     r\<lparr>canvas := canvas r
          @ [FillText (fontColor t) (title t)
               (canvasWidth t / 2 - measureText t (title t) / 2)
               (contentPadding t 1 - btnSize t / 2)]
          @ map (\<lambda>(index, item).
                   Arc item
                     (contentPadding t 3 + btnSize t + of_nat index * btnSize t * (36 / 10))
                     (contentPadding t 1 + btnSize t)
                     (btnSize t))
              (enumerate 0 btnColor)\<rparr>"

text \<open>The canvas calls for one log of the row whose top is given.  An attribute value
  counts as true in a condition when it is neither \<^verbatim>\<open>null\<close> nor the empty
  string.\<close>

definition drawLog :: "terminal \<Rightarrow> rat \<Rightarrow> log \<Rightarrow> draw list" where
  "drawLog t tp lg =
     (case background lg of
        Some (c # cs) \<Rightarrow> [FillRect (c # cs) (left lg) tp (width lg) (fontSizePx t)]
      | _ \<Rightarrow> [])
     @ [FillText (case color lg of Some (c # cs) \<Rightarrow> c # cs | _ \<Rightarrow> fontColor t)
          (text lg) (left lg) tp]"

text \<open>
  The two nested loops of \<open>renderContent\<close> from row \<open>i\<close> on.  Reading
  \<^verbatim>\<open>logs.length\<close> of a row that is undefined throws a TypeError; what was drawn
  before stays drawn.
\<close>

fun renderRows :: "terminal \<Rightarrow> nat \<Rightarrow> slot list \<Rightarrow> draw list \<Rightarrow> error option \<times> draw list" where
  "renderRows t i [] cv = (None, cv)"
| "renderRows t i (None # rest) cv = (Some TypeError, cv)"
| "renderRows t i (Some logs # rest) cv =
     renderRows t (i + 1) rest
       (cv @ concat (map (drawLog t (contentPadding t 0 + (fontSizePx t + logGap t) * of_nat i))
                       logs))"

text \<open>A method that may throw returns the exception, if any, and the renderer as the call
  leaves it.\<close>

definition renderContent :: "terminal \<Rightarrow> renderer \<Rightarrow> error option \<times> renderer" where
  "renderContent t r =
     (case renderRows t 0 (renderLogs r) (canvas r) of
        (Some e, cv) \<Rightarrow> (Some e, r\<lparr>canvas := cv\<rparr>)
      | (None, cv) \<Rightarrow>
          (let r1 = r\<lparr>canvas := cv\<rparr> in
           if renderEditable t r1 then
             (let sh = (of_nat (length (cacheLogs r1)) * (fontSizePx t + logGap t)) / pixelRatio t;
                  lastlogs = lastSlot (renderLogs r1);
                  lastIndex = indexOf (cacheLogs r1) lastlogs;
                  st = ((of_int lastIndex + 1) * (fontSizePx t + logGap t) - contentHeight t)
                         / pixelRatio t
              in (None,
                  r1\<lparr>scrollHeight := Some sh,
                      scrollTop := Some st,
                      emitted := emitted r1
                        @ [Cursor (fst (cursorPos t r1) / pixelRatio t)
                             (snd (cursorPos t r1) / pixelRatio t),
                           Scroll (clamp sh 0 None) (clamp st 0 None)]\<rparr>))
           else (None, r1)))"

definition render :: "terminal \<Rightarrow> renderer \<Rightarrow> error option \<times> renderer" where
  "render t r = renderContent t (renderTopbar t (renderBackground t r))"

text \<open>The constant \<^verbatim>\<open>startIndex\<close> of \<open>renderByTop\<close>, for the offset
  \<^verbatim>\<open>top\<close>: \<^verbatim>\<open>Math.ceil\<close> of the exact quotient, with the same proviso as
  for \<open>maxLength\<close>.\<close>

definition startIndex :: "terminal \<Rightarrow> rat \<Rightarrow> int" where
  "startIndex t tp = \<lceil>(tp * pixelRatio t) / (fontSizePx t + logGap t)\<rceil>"

definition renderByTop :: "terminal \<Rightarrow> rat \<Rightarrow> renderer \<Rightarrow> error option \<times> renderer" where
  "renderByTop t tp r =
     render t
       (r\<lparr>renderLogs := slice (cacheLogs r) (startIndex t tp) (startIndex t tp + maxLength t)\<rparr>)"

definition renderCursor :: "terminal \<Rightarrow> renderer \<Rightarrow> renderer" where
  "renderCursor t r =
     (if renderEditable t r \<and> fst (cursorPos t r) \<noteq> 0 \<and> snd (cursorPos t r) \<noteq> 0 then
        r\<lparr>canvas := canvas r
             @ [FillRect (if cursor r then cursorColor t ! 0 else cursorColor t ! 1)
                  (fst (cursorPos t r)) (snd (cursorPos t r)) (cursorSize t) (fontSizePx t)]\<rparr>
      else r)"

text \<open>One firing of the blink timer.\<close>

definition blink :: "terminal \<Rightarrow> renderer \<Rightarrow> renderer" where
  "blink t r = renderCursor t (r\<lparr>cursor := \<not> cursor r\<rparr>)"

subsection \<open>emit, clear and the constructor\<close>

text \<open>
  \<open>emit\<close> returns the exception thrown, if any, the caller's entry object as the call
  leaves it, and the renderer.  \<^verbatim>\<open>pop\<close> on an empty array does nothing, and
  \<^verbatim>\<open>push(...logs)\<close> appends \<^verbatim>\<open>undefined\<close> for every hole of
  \<^verbatim>\<open>logs\<close>.
\<close>

definition emit :: "terminal \<Rightarrow> entry \<Rightarrow> renderer \<Rightarrow> error option \<times> entry \<times> renderer" where
  "emit t data r =
     (let r1 = (if replace data = Some True then r\<lparr>cacheLogs := butlast (cacheLogs r)\<rparr> else r)
      in case parse t data (nextOid r1) of
           (logs, data', n) \<Rightarrow>
             (let r2 = r1\<lparr>cacheLogs := cacheLogs r1 @ logs, nextOid := n\<rparr>;
                  r3 = r2\<lparr>renderLogs := slice_from (cacheLogs r2) (- maxLength t)\<rparr>
              in case render t r3 of (e, r4) \<Rightarrow> (e, data', r4)))"

definition clear :: "terminal \<Rightarrow> renderer \<Rightarrow> error option \<times> renderer" where
  "clear t r = render t (r\<lparr>cacheLogs := [], renderLogs := []\<rparr>)"

text \<open>The renderer as the constructor leaves it; the first \<open>render\<close> draws an empty
  window.\<close>

definition constructor :: "terminal \<Rightarrow> renderer" where
  "constructor t =
     (snd (render t
        \<lparr>cacheLogs = [], renderLogs = [], scrollHeight = None, scrollTop = None,
         cursor = False, nextOid = 0,
         emitted = [Size (contentPadding t 0 / pixelRatio t) (contentHeight t / pixelRatio t)
                      (contentPadding t 2 / pixelRatio t)],
         canvas = []\<rparr>))\<lparr>cursor := False\<rparr>"

subsection \<open>A terminal for the examples\<close>

text \<open>A markup parser for text without markup: the whole text is one text node.\<close>

definition plainText :: "string \<Rightarrow> node list" where
  "plainText s = [\<lparr>textContent = s, getAttribute = None\<rparr>]"

text \<open>
  A terminal with a canvas of the given width and height, pixel ratio 1 and font size 18
  (rows are 28 pixels apart), in a font whose characters all have the given width and add up
  without kerning.  The left inset is 15 and the content width is the canvas width less 30.
\<close>

definition sampleTerm :: "rat \<Rightarrow> rat \<Rightarrow> rat \<Rightarrow> terminal" where
  "sampleTerm w h cw =
     \<lparr>canvasWidth = w, canvasHeight = h, pixelRatio = 1, fontSize = 18,
      fontFamily = ''monospace'', fontColor = ''#FFF'', backgroundColor = ''#000'',
      title = ''Term'', prefix = ''$ '', isFocus = True,
      measureText = (\<lambda>s. cw * of_nat (length s)), escape = (\<lambda>s. s),
      parseHTML = plainText\<rparr>"

definition outputEntry :: "string \<Rightarrow> entry" where
  "outputEntry s = \<lparr>type = OUTPUT, text = s, replace = None\<rparr>"

definition inputEntry :: "string \<Rightarrow> entry" where
  "inputEntry s = \<lparr>type = INPUT, text = s, replace = None\<rparr>"

text \<open>The renderer after a call of \<open>emit\<close>, whether it threw or not.\<close>

definition after_emit :: "terminal \<Rightarrow> entry \<Rightarrow> renderer \<Rightarrow> renderer" where
  "after_emit t data r = snd (snd (emit t data r))"

subsection \<open>Observations of a call\<close>

text \<open>The caller's entry object after a call of \<open>emit\<close>.\<close>

definition entry_after_emit :: "terminal \<Rightarrow> entry \<Rightarrow> renderer \<Rightarrow> entry" where
  "entry_after_emit t data r = fst (snd (emit t data r))"

text \<open>The notifications sent during a call that took the renderer from \<open>r\<close> to
  \<open>r'\<close>.\<close>

definition sent :: "renderer \<Rightarrow> renderer \<Rightarrow> event list" where
  "sent r r' = drop (length (emitted r)) (emitted r')"

fun is_scroll :: "event \<Rightarrow> bool" where
  "is_scroll (Scroll h s) = True"
| "is_scroll _ = False"

text \<open>The scroll notification that \<open>renderContent\<close> computes from the cache and the
  window of a renderer: the height of all cached rows and the offset of the last drawn row,
  in units of the host, neither below 0.\<close>

definition scroll_of :: "terminal \<Rightarrow> renderer \<Rightarrow> event" where
  "scroll_of t r =
     Scroll (max 0 ((of_nat (length (cacheLogs r)) * (fontSizePx t + logGap t)) / pixelRatio t))
       (max 0 (((of_int (indexOf (cacheLogs r) (lastSlot (renderLogs r))) + 1)
                  * (fontSizePx t + logGap t) - contentHeight t) / pixelRatio t))"

definition scroll_nonneg :: "event \<Rightarrow> bool" where
  "scroll_nonneg ev = (case ev of Scroll h s \<Rightarrow> 0 \<le> h \<and> 0 \<le> s | _ \<Rightarrow> True)"

text \<open>The array is empty, or its last slot is a row that ends with a log of the given
  type.\<close>

definition ends_with_type :: "kind \<Rightarrow> slot list \<Rightarrow> bool" where
  "ends_with_type ty res =
     (res = [] \<or> (case last res of None \<Rightarrow> False | Some g \<Rightarrow> g \<noteq> [] \<and> type (last g) = ty))"

subsection \<open>The replace flag in the logs\<close>

text \<open>Logs copy the replace flag of their entry; these functions overwrite the copy in a
  log, in an array and in the locals of \<open>parse\<close>.\<close>

definition set_replace :: "bool option \<Rightarrow> log \<Rightarrow> log" where
  "set_replace b lg = lg\<lparr>replace := b\<rparr>"

definition rmap :: "bool option \<Rightarrow> slot list \<Rightarrow> slot list" where
  "rmap b res = map (map_option (map (set_replace b))) res"

definition pmap :: "bool option \<Rightarrow> pstate \<Rightarrow> pstate" where
  "pmap b ps = ps\<lparr>p_result := rmap b (p_result ps)\<rparr>"

subsection \<open>Counting rows\<close>

text \<open>The rows of an array: its slots that are not undefined.\<close>

definition rows :: "slot list \<Rightarrow> nat" where
  "rows res = length (filter (\<lambda>s. s \<noteq> None) res)"

text \<open>The raw lines for which the scratch element gets at least one child node.\<close>

definition lines_with_nodes :: "terminal \<Rightarrow> string list \<Rightarrow> nat" where
  "lines_with_nodes t ls = length (filter (\<lambda>line. childNodes t line \<noteq> []) ls)"

text \<open>
  Where \<^verbatim>\<open>index\<close> stands relative to the end of \<^verbatim>\<open>result\<close>: inside a raw
  line it is the last slot or beyond, at the start of a raw line it is beyond.  A slot beyond
  the end becomes a row with the next log, which \<open>rows_due\<close> counts in advance.
\<close>

definition in_line :: "pstate \<Rightarrow> bool" where
  "in_line ps = (length (p_result ps) \<le> p_index ps + 1)"

definition at_line_start :: "pstate \<Rightarrow> bool" where
  "at_line_start ps = (length (p_result ps) \<le> p_index ps)"

definition rows_due :: "pstate \<Rightarrow> nat" where
  "rows_due ps = rows (p_result ps) + (if length (p_result ps) \<le> p_index ps then 1 else 0)"

subsection \<open>Logs of an array and their layout\<close>

text \<open>The logs of an array, row by row.\<close>

definition logs_of :: "slot list \<Rightarrow> log list" where
  "logs_of res = concat (map (\<lambda>s. case s of None \<Rightarrow> [] | Some g \<Rightarrow> g) res)"

text \<open>A log ends at or before the content width.\<close>

definition fits :: "terminal \<Rightarrow> log \<Rightarrow> bool" where
  "fits t lg = (left lg + width lg \<le> contentWidth t)"

definition all_fit :: "terminal \<Rightarrow> slot list \<Rightarrow> bool" where
  "all_fit t res = list_all (fits t) (logs_of res)"

text \<open>Text measurement without kerning: the width of a string is the sum of the widths of
  its parts.\<close>

definition additive :: "terminal \<Rightarrow> bool" where
  "additive t = (\<forall>s u. measureText t (s @ u) = measureText t s + measureText t u)"

definition nonneg :: "terminal \<Rightarrow> bool" where
  "nonneg t = (\<forall>s. 0 \<le> measureText t s)"

text \<open>A letter that fits when it is the first of a row, at the left inset.\<close>

definition letter_fits :: "terminal \<Rightarrow> char \<Rightarrow> bool" where
  "letter_fits t c = (contentPadding t 3 + measureText t [c] \<le> contentWidth t)"

text \<open>Every letter of every child node of every raw line fits at the left inset.\<close>

definition letters_fit :: "terminal \<Rightarrow> string list \<Rightarrow> bool" where
  "letters_fit t ls =
     list_all (\<lambda>line. list_all (\<lambda>child. list_all (letter_fits t) (textContent child))
                         (childNodes t line)) ls"

text \<open>The texts of the logs of an array, and the texts of the child nodes of the raw lines,
  both in order.\<close>

definition texts :: "slot list \<Rightarrow> string" where
  "texts res = concat (map text (logs_of res))"

definition token_text :: "terminal \<Rightarrow> string list \<Rightarrow> string" where
  "token_text t ls = concat (map (\<lambda>line. concat (map textContent (childNodes t line))) ls)"

definition nonempty_text :: "log \<Rightarrow> bool" where
  "nonempty_text lg = (text lg \<noteq> [])"

definition all_nonempty :: "slot list \<Rightarrow> bool" where
  "all_nonempty res = list_all nonempty_text (logs_of res)"

text \<open>A letter wider than the content width, and a text in which such a letter is the only
  letter.\<close>

definition wide :: "terminal \<Rightarrow> char \<Rightarrow> bool" where
  "wide t c = (contentWidth t < measureText t [c])"

definition alone :: "terminal \<Rightarrow> string \<Rightarrow> bool" where
  "alone t s = list_all (\<lambda>c. wide t c \<longrightarrow> s = [c]) s"

definition all_alone :: "terminal \<Rightarrow> slot list \<Rightarrow> bool" where
  "all_alone t res = list_all (\<lambda>lg. alone t (text lg)) (logs_of res)"

subsection \<open>Arrays without undefined rows\<close>

text \<open>No row of the array is undefined.\<close>

definition defined_rows :: "slot list \<Rightarrow> bool" where
  "defined_rows xs = list_all (\<lambda>s. s \<noteq> None) xs"

section \<open>Properties\<close>

subsection \<open>What the drawing methods leave alone\<close>

lemma render_cacheLogs: "cacheLogs (snd (render t r)) = cacheLogs r"
  by (simp add: render_def renderContent_def renderTopbar_def renderBackground_def Let_def
      split: prod.splits option.splits)

lemma render_cacheLogs_eq: "render t r = (e, r') \<Longrightarrow> cacheLogs r' = cacheLogs r"
  using render_cacheLogs [of t r] by simp

lemma emit_cacheLogs:
  "cacheLogs (after_emit t data r) =
     (if replace data = Some True then butlast (cacheLogs r) else cacheLogs r)
       @ fst (parse t data (nextOid r))"
  by (auto simp add: after_emit_def emit_def Let_def split: prod.splits
      dest!: render_cacheLogs_eq)

lemma parse_empty_output:
  "type data = OUTPUT \<Longrightarrow> text data = [] \<Longrightarrow> fst (parse t data n) = []"
  by (simp add: parse_def prefixed_def split_lines_def childNodes_def Let_def)

subsection \<open>An empty output entry\<close>

text \<open>
  C10.  Appending an output entry whose text is the empty string, with \<^verbatim>\<open>replace\<close>
  unset or false, adds no row: the cache after the call is the cache before it.
\<close>

theorem emit_empty_output_keeps_cache:
  assumes "type data = OUTPUT" and "text data = []"
    and "replace data = None \<or> replace data = Some False"
  shows "cacheLogs (after_emit t data r) = cacheLogs r"
  using assms by (auto simp add: emit_cacheLogs parse_empty_output)

theorem emit_empty_output_keeps_cache_witness:
  "type (outputEntry []) = OUTPUT \<and> text (outputEntry []) = []
   \<and> (replace (outputEntry []) = None \<or> replace (outputEntry []) = Some False)
   \<and> cacheLogs (after_emit (sampleTerm 130 200 10) (outputEntry [])
         (after_emit (sampleTerm 130 200 10) (inputEntry ''ls'') (constructor (sampleTerm 130 200 10))))
       = cacheLogs (after_emit (sampleTerm 130 200 10) (inputEntry ''ls'')
           (constructor (sampleTerm 130 200 10)))"
  using emit_empty_output_keeps_cache [of "outputEntry []" "sampleTerm 130 200 10"
      "after_emit (sampleTerm 130 200 10) (inputEntry ''ls'') (constructor (sampleTerm 130 200 10))"]
  by (simp add: outputEntry_def)

subsection \<open>The loops of parse, one step at a time\<close>

lemma letters_loop_fit:
  "p_left ps + measureText t letter < contentWidth t \<Longrightarrow>
   letters_loop t data col bg lastLeft (letter # rest) textTmp isNewLine ps =
     letters_loop t data col bg lastLeft rest (textTmp @ letter) isNewLine
       (ps\<lparr>p_left := p_left ps + measureText t letter\<rparr>)"
  by (simp add: Let_def)

lemma letters_loop_wrap:
  "\<not> p_left ps + measureText t letter < contentWidth t \<Longrightarrow>
   letters_loop t data col bg lastLeft (letter # rest) textTmp isNewLine ps =
     letters_loop t data col bg lastLeft rest letter True
       ((add_log data (measureText t textTmp)
           (if isNewLine then contentPadding t 3 else lastLeft) textTmp col bg ps)
          \<lparr>p_index := p_index ps + 1, p_left := contentPadding t 3 + measureText t letter\<rparr>)"
  by (simp add: Let_def)

text \<open>A property of \<^verbatim>\<open>result\<close> that every new log preserves holds of the
  array that \<open>parse\<close> returns.\<close>

lemma letters_loop_result:
  assumes step: "\<And>w l tx col bg ps. Q (p_result ps) \<Longrightarrow> Q (p_result (add_log data w l tx col bg ps))"
  shows "Q (p_result ps) \<Longrightarrow>
         Q (p_result (snd (snd (letters_loop t data col bg lastLeft ls textTmp isNewLine ps))))"
proof (induction ls arbitrary: textTmp isNewLine ps)
  case Nil
  then show ?case by simp
next
  case (Cons letter rest)
  show ?case
  proof (cases "p_left ps + measureText t letter < contentWidth t")
    case True
    show ?thesis unfolding letters_loop_fit [OF True]
      by (rule Cons.IH) (simp add: Cons.prems)
  next
    case False
    show ?thesis unfolding letters_loop_wrap [OF False]
      by (rule Cons.IH) (simp add: step Cons.prems)
  qed
qed

lemma parse_word_result:
  assumes step: "\<And>w l tx col bg ps. Q (p_result ps) \<Longrightarrow> Q (p_result (add_log data w l tx col bg ps))"
    and "Q (p_result ps)"
  shows "Q (p_result (parse_word t data child ps))"
proof (cases "p_left ps + measureText t (textContent child) > contentWidth t")
  case True
  obtain tt nl ps' where l: "letters_loop t data
      (case getAttribute child of Some g \<Rightarrow> g ''color'' | None \<Rightarrow> Some [])
      (case getAttribute child of Some g \<Rightarrow> g ''background'' | None \<Rightarrow> Some [])
      (p_left ps) (letters (textContent child)) [] False ps = (tt, nl, ps')"
    by (metis prod_cases3)
  from letters_loop_result [of Q data, OF step assms(2)] l have "Q (p_result ps')"
    by (metis snd_conv)
  with True l show ?thesis by (simp add: parse_word_def Let_def step)
next
  case False
  with assms(2) show ?thesis by (simp add: parse_word_def Let_def step)
qed

lemma parse_nodes_result:
  assumes step: "\<And>w l tx col bg ps. Q (p_result ps) \<Longrightarrow> Q (p_result (add_log data w l tx col bg ps))"
  shows "Q (p_result ps) \<Longrightarrow> Q (p_result (parse_nodes t data ns ps))"
  by (induction ns arbitrary: ps) (simp_all add: parse_word_result [of Q data, OF step])

lemma parse_lines_result:
  assumes step: "\<And>w l tx col bg ps. Q (p_result ps) \<Longrightarrow> Q (p_result (add_log data w l tx col bg ps))"
  shows "Q (p_result ps) \<Longrightarrow> Q (p_result (parse_lines t data ls ps))"
  by (induction ls arbitrary: ps) (simp_all add: parse_nodes_result [of Q data, OF step])

lemma parse_result:
  assumes step: "\<And>res i lg. Q res \<Longrightarrow> type lg = type data \<Longrightarrow> Q (result_push res i lg)"
    and "Q []"
  shows "Q (fst (parse t data n))"
proof -
  have "Q (p_result (add_log (prefixed t data) w l tx col bg ps))" if "Q (p_result ps)"
    for w l tx col bg ps
    using that by (simp add: add_log_def step mk_log_def prefixed_def)
  from parse_lines_result [of Q "prefixed t data", OF this] assms(2) show ?thesis
    by (simp add: parse_def Let_def)
qed

lemma result_push_ends_with_type:
  assumes "ends_with_type ty res" and "type lg = ty"
  shows "ends_with_type ty (result_push res i lg)"
proof (cases "i < length res")
  case False
  then show ?thesis using assms(2) by (simp add: ends_with_type_def result_push_def)
next
  case True
  then have ne: "res \<noteq> []" by auto
  obtain g where upd: "result_push res i lg = res[i := Some g]" and g: "g \<noteq> []" "type (last g) = ty"
    using True assms(2) by (cases "res ! i") (simp_all add: result_push_def)
  show ?thesis
  proof (cases "i = length res - 1")
    case True
    with ne g show ?thesis unfolding upd by (simp add: ends_with_type_def last_list_update)
  next
    case False
    with ne assms(1) show ?thesis unfolding upd by (simp add: ends_with_type_def last_list_update)
  qed
qed

lemma parse_ends_with_type: "ends_with_type (type data) (fst (parse t data n))"
  by (rule parse_result) (simp_all add: result_push_ends_with_type, simp add: ends_with_type_def)

lemma lastLog_append:
  "logs \<noteq> [] \<Longrightarrow> ends_with_type ty logs \<Longrightarrow> \<exists>lg. lastLog (cache @ logs) = Some lg \<and> type lg = ty"
  by (auto simp add: lastLog_def lastSlot_def ends_with_type_def split: option.splits)

subsection \<open>Notifications of a drawing pass\<close>

lemma renderEditable_canvas [simp]:
  "renderEditable t (r\<lparr>canvas := cv\<rparr>) = renderEditable t r"
  by (simp add: renderEditable_def cacheEditable_def)

lemma renderEditable_cong:
  "cacheLogs r' = cacheLogs r \<Longrightarrow> renderLogs r' = renderLogs r \<Longrightarrow>
   renderEditable t r' = renderEditable t r"
  by (simp add: renderEditable_def cacheEditable_def)

lemma renderContent_logs:
  "renderContent t r = (e, r') \<Longrightarrow> cacheLogs r' = cacheLogs r \<and> renderLogs r' = renderLogs r"
  by (auto simp add: renderContent_def Let_def split: prod.splits option.splits if_splits)

lemma renderContent_sent:
  assumes "renderContent t r = (e, r')"
  shows "filter is_scroll (sent r r') =
           (if e = None \<and> renderEditable t r' then [scroll_of t r'] else [])"
proof -
  from assms have same: "renderEditable t r' = renderEditable t r"
    using renderContent_logs [OF assms] renderEditable_cong [of r' r t] by simp
  from assms show ?thesis unfolding same
    by (auto simp add: renderContent_def Let_def sent_def scroll_of_def clamp_def
        split: prod.splits option.splits if_splits)
qed

lemma render_sent:
  assumes "render t r = (e, r')"
  shows "filter is_scroll (sent r r') =
           (if e = None \<and> renderEditable t r' then [scroll_of t r'] else [])"
proof -
  let ?r0 = "renderTopbar t (renderBackground t r)"
  have "emitted ?r0 = emitted r" by (simp add: renderTopbar_def renderBackground_def)
  then have "sent r r' = sent ?r0 r'" by (simp add: sent_def)
  moreover from assms have "renderContent t ?r0 = (e, r')" by (simp add: render_def)
  ultimately show ?thesis using renderContent_sent by simp
qed

lemma render_sent_none:
  assumes "render t r = (e, r')" and "\<not> renderEditable t r'"
  shows "sent r r' = []"
proof -
  from assms(1) have "renderContent t (renderTopbar t (renderBackground t r)) = (e, r')"
    by (simp add: render_def)
  moreover from this have "renderEditable t r' = renderEditable t (renderTopbar t (renderBackground t r))"
    using renderContent_logs renderEditable_cong by blast
  ultimately show ?thesis using assms(2)
    by (auto simp add: renderContent_def Let_def sent_def renderTopbar_def renderBackground_def
        split: prod.splits option.splits if_splits)
qed

lemma emit_render:
  "\<exists>r3. emitted r3 = emitted r \<and> render t r3 = (fst (emit t data r), after_emit t data r)"
proof -
  define r1 where "r1 = (if replace data = Some True then r\<lparr>cacheLogs := butlast (cacheLogs r)\<rparr> else r)"
  obtain logs d n where p: "parse t data (nextOid r1) = (logs, d, n)"
    by (metis prod_cases3)
  define r3 where "r3 = r1\<lparr>cacheLogs := cacheLogs r1 @ logs, nextOid := n,
       renderLogs := slice_from (cacheLogs r1 @ logs) (- maxLength t)\<rparr>"
  obtain e r4 where rr: "render t r3 = (e, r4)" by (cases "render t r3") auto
  have em: "emit t data r = (e, d, r4)"
    using p rr unfolding emit_def Let_def r1_def [symmetric] by (simp add: r3_def)
  have "emitted r3 = emitted r" by (simp add: r3_def r1_def)
  with rr em show ?thesis by (auto simp add: after_emit_def)
qed

lemma emit_sent:
  "filter is_scroll (sent r (after_emit t data r)) =
     (if fst (emit t data r) = None \<and> renderEditable t (after_emit t data r)
      then [scroll_of t (after_emit t data r)] else [])"
proof -
  obtain r3 where r3: "emitted r3 = emitted r"
      "render t r3 = (fst (emit t data r), after_emit t data r)"
    using emit_render by blast
  then have "sent r (after_emit t data r) = sent r3 (after_emit t data r)" by (simp add: sent_def)
  with render_sent [OF r3(2)] show ?thesis by simp
qed

lemma emit_sent_none:
  assumes "\<not> renderEditable t (after_emit t data r)"
  shows "sent r (after_emit t data r) = []"
proof -
  obtain r3 where r3: "emitted r3 = emitted r"
      "render t r3 = (fst (emit t data r), after_emit t data r)"
    using emit_render by blast
  then have "sent r (after_emit t data r) = sent r3 (after_emit t data r)" by (simp add: sent_def)
  with render_sent_none [OF r3(2) assms] show ?thesis by simp
qed

lemma renderByTop_sent:
  "filter is_scroll (sent r (snd (renderByTop t tp r))) =
     (if fst (renderByTop t tp r) = None \<and> renderEditable t (snd (renderByTop t tp r))
      then [scroll_of t (snd (renderByTop t tp r))] else [])"
proof -
  define r1 where "r1 = r\<lparr>renderLogs := slice (cacheLogs r)
     (startIndex t tp) (startIndex t tp + maxLength t)\<rparr>"
  obtain e r2 where rr: "render t r1 = (e, r2)" by (cases "render t r1") auto
  have rb: "renderByTop t tp r = (e, r2)" using rr by (simp add: renderByTop_def r1_def)
  have "sent r r2 = sent r1 r2" by (simp add: sent_def r1_def)
  with render_sent [OF rr] rb show ?thesis by simp
qed

subsection \<open>Rows that are undefined\<close>

text \<open>
  C6.  The spec says that no call but a rejected \<open>emit\<close> can fail.  A line without
  child nodes that is followed by a line with child nodes leaves a hole in the array that
  \<open>parse\<close> returns; \<open>emit\<close> pushes it on the cache as an undefined row, and
  \<open>renderContent\<close> throws a TypeError when it reads the length of that row.  Here the
  text is \<^verbatim>\<open>a\n\nb\<close> on a new renderer whose window holds 5 rows.
\<close>

theorem emit_blank_line_throws:
  "fst (emit (sampleTerm 130 200 10) (outputEntry ''a\<newline>\<newline>b'')
          (constructor (sampleTerm 130 200 10)))
     = Some TypeError"
  by code_simp

text \<open>
  C3.  The spec says that deriving the window from a scroll offset never fails.  With a
  window of one row, \<open>emit\<close> of \<^verbatim>\<open>\na\<close> returns normally and leaves an
  undefined row at index 0 of the cache; scrolling to offset 0, or to the negative offset
  -56, then puts that row in the window and the drawing pass throws.
\<close>

theorem renderByTop_hole_throws:
  "fst (emit (sampleTerm 130 100 10) (outputEntry ''\<newline>a'') (constructor (sampleTerm 130 100 10)))
     = None
   \<and> fst (renderByTop (sampleTerm 130 100 10) 0
          (after_emit (sampleTerm 130 100 10) (outputEntry ''\<newline>a'')
             (constructor (sampleTerm 130 100 10)))) = Some TypeError
   \<and> fst (renderByTop (sampleTerm 130 100 10) (- 56)
          (after_emit (sampleTerm 130 100 10) (outputEntry ''\<newline>a'')
             (constructor (sampleTerm 130 100 10)))) = Some TypeError"
  by code_simp

subsection \<open>The caller's entry\<close>

text \<open>
  C9, as the spec has it: \<open>emit\<close> changes no field of the entry it is given.  This
  fails for an input entry: its text is overwritten with the prompt and the escaped text.
\<close>

theorem emit_input_text_counterexample:
  "text (entry_after_emit (sampleTerm 130 200 10) (inputEntry ''ls'')
           (constructor (sampleTerm 130 200 10)))
     \<noteq> text (inputEntry ''ls'')"
  by code_simp

text \<open>
  C9, amended: \<open>emit\<close> leaves the type and the replace flag of the entry as they
  were; it leaves the text of an output entry as it was, and overwrites the text of an input
  entry with the prefix followed by the escaped text.
\<close>

theorem emit_entry_fields:
  "type (entry_after_emit t data r) = type data
   \<and> replace (entry_after_emit t data r) = replace data
   \<and> text (entry_after_emit t data r) =
       (if type data = INPUT then prefix t @ escape t (text data) else text data)"
  by (simp add: entry_after_emit_def emit_def parse_def prefixed_def Let_def split: prod.splits)

subsection \<open>Scroll notifications\<close>

text \<open>
  C7, as the spec has it: every \<open>emit\<close> and every scroll request sends a scroll
  notification.  This fails for the first output entry of a new renderer: the call returns
  normally, the window changes, and nothing is sent.
\<close>

theorem output_sends_no_scroll:
  "fst (emit (sampleTerm 130 200 10) (outputEntry ''hello'') (constructor (sampleTerm 130 200 10))) = None
   \<and> sent (constructor (sampleTerm 130 200 10))
        (after_emit (sampleTerm 130 200 10) (outputEntry ''hello'') (constructor (sampleTerm 130 200 10))) = []
   \<and> renderLogs (after_emit (sampleTerm 130 200 10) (outputEntry ''hello'') (constructor (sampleTerm 130 200 10)))
      \<noteq> renderLogs (constructor (sampleTerm 130 200 10))"
  by code_simp

text \<open>
  C7, amended: a call of \<open>emit\<close> or \<open>renderByTop\<close> sends a scroll notification
  exactly when its drawing pass completes and the cursor is eligible afterwards
  (\<open>renderEditable\<close>); it then sends exactly one, the one computed from the cache and the
  window, and neither of its two values is below 0.  In every other case it sends none.
\<close>

theorem scroll_sent_iff_editable:
  "filter is_scroll (sent r (after_emit t data r)) =
     (if fst (emit t data r) = None \<and> renderEditable t (after_emit t data r)
      then [scroll_of t (after_emit t data r)] else [])
   \<and> filter is_scroll (sent r (snd (renderByTop t tp r))) =
     (if fst (renderByTop t tp r) = None \<and> renderEditable t (snd (renderByTop t tp r))
      then [scroll_of t (snd (renderByTop t tp r))] else [])
   \<and> scroll_nonneg (scroll_of t r')"
  by (simp only: emit_sent renderByTop_sent simp_thms)
     (simp add: scroll_nonneg_def scroll_of_def)

theorem scroll_sent_iff_editable_witness:
  "fst (emit (sampleTerm 130 200 10) (inputEntry ''ls'') (constructor (sampleTerm 130 200 10))) = None
   \<and> renderEditable (sampleTerm 130 200 10)
        (after_emit (sampleTerm 130 200 10) (inputEntry ''ls'') (constructor (sampleTerm 130 200 10)))
   \<and> filter is_scroll (sent (constructor (sampleTerm 130 200 10))
        (after_emit (sampleTerm 130 200 10) (inputEntry ''ls'') (constructor (sampleTerm 130 200 10))))
      = [Scroll 28 0]
   \<and> scroll_nonneg (Scroll 28 0)"
proof -
  let ?t = "sampleTerm 130 200 10"
  let ?r = "after_emit ?t (inputEntry ''ls'') (constructor ?t)"
  have h1: "fst (emit ?t (inputEntry ''ls'') (constructor ?t)) = None" by code_simp
  have h2: "renderEditable ?t ?r" by code_simp
  have h3: "scroll_of ?t ?r = Scroll 28 0" by code_simp
  from scroll_sent_iff_editable [of "constructor ?t" ?t "inputEntry ''ls''" 0 ?r] h1 h2 h3
  show ?thesis by simp
qed

subsection \<open>The cursor after an output entry\<close>

text \<open>
  C8, as the spec has it: right after an output entry is appended the cursor is not
  eligible.  This fails for an output entry that adds no row: after an input entry, an
  output entry with empty text leaves the input row last in the cache, the cursor stays
  eligible and its position is sent again.
\<close>

theorem empty_output_keeps_cursor:
  "cacheEditable (sampleTerm 130 200 10)
     (after_emit (sampleTerm 130 200 10) (outputEntry [])
        (after_emit (sampleTerm 130 200 10) (inputEntry ''ls'') (constructor (sampleTerm 130 200 10))))
   \<and> renderEditable (sampleTerm 130 200 10)
     (after_emit (sampleTerm 130 200 10) (outputEntry [])
        (after_emit (sampleTerm 130 200 10) (inputEntry ''ls'') (constructor (sampleTerm 130 200 10))))
   \<and> sent (after_emit (sampleTerm 130 200 10) (inputEntry ''ls'') (constructor (sampleTerm 130 200 10)))
       (after_emit (sampleTerm 130 200 10) (outputEntry [])
        (after_emit (sampleTerm 130 200 10) (inputEntry ''ls'') (constructor (sampleTerm 130 200 10))))
     = [Cursor 59 45, Scroll 28 0]"
  by code_simp

text \<open>
  C8, amended: right after an output entry for which \<open>parse\<close> returns at least one
  slot is appended, the cursor is not eligible, with or without focus: neither
  \<open>cacheEditable\<close> nor \<open>renderEditable\<close> holds, the call has sent no notification,
  and \<open>renderCursor\<close> draws nothing.
\<close>

theorem output_row_not_editable:
  assumes "type data = OUTPUT" and "fst (parse t data (nextOid r)) \<noteq> []"
  shows "\<not> cacheEditable t (after_emit t data r)
         \<and> \<not> renderEditable t (after_emit t data r)
         \<and> sent r (after_emit t data r) = []
         \<and> renderCursor t (after_emit t data r) = after_emit t data r"
proof -
  have "ends_with_type OUTPUT (fst (parse t data (nextOid r)))"
    using parse_ends_with_type [of data t "nextOid r"] assms(1) by simp
  from lastLog_append [OF assms(2) this]
  have "\<exists>lg. lastLog (cacheLogs (after_emit t data r)) = Some lg \<and> type lg = OUTPUT"
    by (simp only: emit_cacheLogs)
  then have c: "\<not> cacheEditable t (after_emit t data r)"
    by (auto simp add: cacheEditable_def)
  then have e: "\<not> renderEditable t (after_emit t data r)"
    by (simp add: renderEditable_def)
  from c e emit_sent_none [OF e] show ?thesis by (simp add: renderCursor_def)
qed

theorem output_row_not_editable_witness:
  "type (outputEntry ''done'') = OUTPUT
   \<and> fst (parse (sampleTerm 130 200 10) (outputEntry ''done'')
        (nextOid (after_emit (sampleTerm 130 200 10) (inputEntry ''ls'') (constructor (sampleTerm 130 200 10))))) \<noteq> []
   \<and> \<not> cacheEditable (sampleTerm 130 200 10)
       (after_emit (sampleTerm 130 200 10) (outputEntry ''done'')
        (after_emit (sampleTerm 130 200 10) (inputEntry ''ls'') (constructor (sampleTerm 130 200 10))))
   \<and> sent (after_emit (sampleTerm 130 200 10) (inputEntry ''ls'') (constructor (sampleTerm 130 200 10)))
       (after_emit (sampleTerm 130 200 10) (outputEntry ''done'')
        (after_emit (sampleTerm 130 200 10) (inputEntry ''ls'') (constructor (sampleTerm 130 200 10)))) = []"
proof -
  have h1: "type (outputEntry ''done'') = OUTPUT" by (simp add: outputEntry_def)
  have h2: "fst (parse (sampleTerm 130 200 10) (outputEntry ''done'')
        (nextOid (after_emit (sampleTerm 130 200 10) (inputEntry ''ls'') (constructor (sampleTerm 130 200 10))))) \<noteq> []"
    by code_simp
  from output_row_not_editable [OF h1 h2] h1 h2 show ?thesis by simp
qed

subsection \<open>Replacing the last row\<close>

text \<open>The layout does not read the replace flag: with another flag, \<open>parse\<close> builds
  the same array but for the copies of the flag.\<close>

lemma result_push_rmap:
  "rmap b (result_push res i lg) = result_push (rmap b res) i (set_replace b lg)"
  by (cases "res ! i")
     (simp_all add: rmap_def result_push_def map_update)

lemma add_log_pmap:
  "add_log (data\<lparr>replace := b\<rparr>) w l tx col bg (pmap b ps) = pmap b (add_log data w l tx col bg ps)"
  by (simp add: add_log_def pmap_def result_push_rmap mk_log_def set_replace_def)

lemma pmap_fields [simp]:
  "p_left (pmap b ps) = p_left ps" "p_index (pmap b ps) = p_index ps" "p_oid (pmap b ps) = p_oid ps"
  "(pmap b ps)\<lparr>p_left := x\<rparr> = pmap b (ps\<lparr>p_left := x\<rparr>)"
  "(pmap b ps)\<lparr>p_index := i\<rparr> = pmap b (ps\<lparr>p_index := i\<rparr>)"
  by (simp_all add: pmap_def)

lemma letters_loop_pmap:
  "letters_loop t (data\<lparr>replace := b\<rparr>) col bg lastLeft ls textTmp isNewLine (pmap b ps) =
     (case letters_loop t data col bg lastLeft ls textTmp isNewLine ps of
        (tt, nl, ps') \<Rightarrow> (tt, nl, pmap b ps'))"
proof (induction ls arbitrary: textTmp isNewLine ps)
  case Nil
  show ?case by simp
next
  case (Cons letter rest)
  show ?case
  proof (cases "p_left ps + measureText t letter < contentWidth t")
    case True
    then have "p_left (pmap b ps) + measureText t letter < contentWidth t" by simp
    from letters_loop_fit [OF this] letters_loop_fit [OF True] show ?thesis
      using Cons.IH [of "textTmp @ letter" isNewLine "ps\<lparr>p_left := p_left ps + measureText t letter\<rparr>"]
      by simp
  next
    case False
    then have "\<not> p_left (pmap b ps) + measureText t letter < contentWidth t" by simp
    from letters_loop_wrap [OF this] letters_loop_wrap [OF False] show ?thesis
      using Cons.IH [of letter True "(add_log data (measureText t textTmp)
           (if isNewLine then contentPadding t 3 else lastLeft) textTmp col bg ps)
          \<lparr>p_index := p_index ps + 1, p_left := contentPadding t 3 + measureText t letter\<rparr>"]
      by (simp add: add_log_pmap)
  qed
qed

lemma parse_word_pmap:
  "parse_word t (data\<lparr>replace := b\<rparr>) child (pmap b ps) = pmap b (parse_word t data child ps)"
  by (simp add: parse_word_def Let_def letters_loop_pmap add_log_pmap split: prod.splits)

lemma parse_nodes_pmap:
  "parse_nodes t (data\<lparr>replace := b\<rparr>) ns (pmap b ps) = pmap b (parse_nodes t data ns ps)"
  by (induction ns arbitrary: ps) (simp_all add: parse_word_pmap)

lemma parse_lines_pmap:
  "parse_lines t (data\<lparr>replace := b\<rparr>) ls (pmap b ps) = pmap b (parse_lines t data ls ps)"
  by (induction ls arbitrary: ps) (simp_all add: parse_nodes_pmap)

lemma parse_replace:
  "fst (parse t (data\<lparr>replace := b\<rparr>) n) = rmap b (fst (parse t data n))"
proof -
  have p: "prefixed t (data\<lparr>replace := b\<rparr>) = (prefixed t data)\<lparr>replace := b\<rparr>"
    by (simp add: prefixed_def)
  have "text ((prefixed t data)\<lparr>replace := b\<rparr>) = text (prefixed t data)" by simp
  moreover have "\<lparr>p_result = [], p_index = 0, p_left = contentPadding t 3, p_oid = n\<rparr>
      = pmap b \<lparr>p_result = [], p_index = 0, p_left = contentPadding t 3, p_oid = n\<rparr>"
    by (simp add: pmap_def rmap_def)
  ultimately show ?thesis
    unfolding parse_def Let_def p fst_conv
    by (metis parse_lines_pmap pmap_def pstate.select_convs(1) pstate.surjective pstate.update_convs(1))
qed

lemma parse_replace_length:
  "length (fst (parse t (data\<lparr>replace := b\<rparr>) n)) = length (fst (parse t data n))"
  by (simp add: parse_replace rmap_def)

text \<open>
  C2, as the spec has it: from any cache, appending \<open>e1\<close> and then \<open>e2\<close> with
  \<^verbatim>\<open>replace: true\<close> leaves exactly one row fewer than appending \<open>e1\<close> and then
  \<open>e2\<close> with \<^verbatim>\<open>replace: false\<close>.  This fails when the cache is empty after
  \<open>e1\<close>: \<^verbatim>\<open>pop\<close> then removes nothing.
\<close>

theorem replace_on_empty_cache:
  "length (cacheLogs (after_emit (sampleTerm 130 200 10) ((outputEntry ''a'')\<lparr>replace := Some True\<rparr>)
       (after_emit (sampleTerm 130 200 10) (outputEntry []) (constructor (sampleTerm 130 200 10))))) + 1
   \<noteq> length (cacheLogs (after_emit (sampleTerm 130 200 10) ((outputEntry ''a'')\<lparr>replace := Some False\<rparr>)
       (after_emit (sampleTerm 130 200 10) (outputEntry []) (constructor (sampleTerm 130 200 10)))))"
  by code_simp

text \<open>
  C2, amended: after \<open>e1\<close>, appending \<open>e2\<close> with \<^verbatim>\<open>replace: true\<close>
  leaves the cache without its final slot, followed by the rows of \<open>e2\<close>; appending
  \<open>e2\<close> with \<^verbatim>\<open>replace: false\<close> leaves the whole cache followed by the same
  rows, which differ only in the copy of the flag that each log holds.  So the first cache has
  exactly one slot fewer than the second when the cache is not empty after \<open>e1\<close>, and
  the same length when it is empty.
\<close>

theorem replace_pops_final_slot:
  "cacheLogs (after_emit t (e2\<lparr>replace := Some True\<rparr>) (after_emit t e1 r))
     = butlast (cacheLogs (after_emit t e1 r))
       @ rmap (Some True)
           (fst (parse t (e2\<lparr>replace := Some False\<rparr>) (nextOid (after_emit t e1 r))))
   \<and> cacheLogs (after_emit t (e2\<lparr>replace := Some False\<rparr>) (after_emit t e1 r))
     = cacheLogs (after_emit t e1 r)
       @ fst (parse t (e2\<lparr>replace := Some False\<rparr>) (nextOid (after_emit t e1 r)))
   \<and> length (cacheLogs (after_emit t (e2\<lparr>replace := Some True\<rparr>) (after_emit t e1 r)))
       + (if cacheLogs (after_emit t e1 r) = [] then 0 else 1)
     = length (cacheLogs (after_emit t (e2\<lparr>replace := Some False\<rparr>) (after_emit t e1 r)))"
proof -
  have "fst (parse t (e2\<lparr>replace := Some True\<rparr>) n)
      = rmap (Some True) (fst (parse t (e2\<lparr>replace := Some False\<rparr>) n))" for n
    using parse_replace [where t = t and data = "e2\<lparr>replace := Some False\<rparr>"
        and b = "Some True" and n = n] by simp
  then show ?thesis by (simp add: emit_cacheLogs parse_replace_length rmap_def)
qed

theorem replace_pops_final_slot_witness:
  "cacheLogs (after_emit (sampleTerm 130 200 10) (outputEntry ''ready'') (constructor (sampleTerm 130 200 10)))
     \<noteq> []
   \<and> cacheLogs (after_emit (sampleTerm 130 200 10) ((inputEntry ''ls'')\<lparr>replace := Some True\<rparr>)
        (after_emit (sampleTerm 130 200 10) (outputEntry ''ready'') (constructor (sampleTerm 130 200 10))))
     = butlast (cacheLogs (after_emit (sampleTerm 130 200 10) (outputEntry ''ready'')
          (constructor (sampleTerm 130 200 10))))
       @ rmap (Some True)
           (fst (parse (sampleTerm 130 200 10) ((inputEntry ''ls'')\<lparr>replace := Some False\<rparr>)
              (nextOid (after_emit (sampleTerm 130 200 10) (outputEntry ''ready'')
                 (constructor (sampleTerm 130 200 10))))))
   \<and> length (cacheLogs (after_emit (sampleTerm 130 200 10) ((inputEntry ''ls'')\<lparr>replace := Some True\<rparr>)
        (after_emit (sampleTerm 130 200 10) (outputEntry ''ready'') (constructor (sampleTerm 130 200 10))))) + 1
     = length (cacheLogs (after_emit (sampleTerm 130 200 10) ((inputEntry ''ls'')\<lparr>replace := Some False\<rparr>)
        (after_emit (sampleTerm 130 200 10) (outputEntry ''ready'') (constructor (sampleTerm 130 200 10)))))
   \<and> map text (logs_of (cacheLogs (after_emit (sampleTerm 130 200 10)
        ((inputEntry ''ls'')\<lparr>replace := Some True\<rparr>)
        (after_emit (sampleTerm 130 200 10) (outputEntry ''ready'') (constructor (sampleTerm 130 200 10))))))
     = [''$ ls'']"
proof -
  have h: "cacheLogs (after_emit (sampleTerm 130 200 10) (outputEntry ''ready'')
      (constructor (sampleTerm 130 200 10))) \<noteq> []"
    by code_simp
  have k: "map text (logs_of (cacheLogs (after_emit (sampleTerm 130 200 10)
        ((inputEntry ''ls'')\<lparr>replace := Some True\<rparr>)
        (after_emit (sampleTerm 130 200 10) (outputEntry ''ready'') (constructor (sampleTerm 130 200 10))))))
     = [''$ ls'']"
    by code_simp
  note all = replace_pops_final_slot [of "sampleTerm 130 200 10" "inputEntry ''ls''"
      "outputEntry ''ready''" "constructor (sampleTerm 130 200 10)"]
  note a = all [THEN conjunct1]
  from all [THEN conjunct2, THEN conjunct2] h
  have c: "length (cacheLogs (after_emit (sampleTerm 130 200 10) ((inputEntry ''ls'')\<lparr>replace := Some True\<rparr>)
        (after_emit (sampleTerm 130 200 10) (outputEntry ''ready'') (constructor (sampleTerm 130 200 10))))) + 1
     = length (cacheLogs (after_emit (sampleTerm 130 200 10) ((inputEntry ''ls'')\<lparr>replace := Some False\<rparr>)
        (after_emit (sampleTerm 130 200 10) (outputEntry ''ready'') (constructor (sampleTerm 130 200 10)))))"
    by simp
  from h a c k show ?thesis by blast
qed

subsection \<open>Rows for raw lines\<close>

lemma result_push_length: "length (result_push res i lg) = max (length res) (i + 1)"
  by (cases "res ! i") (auto simp add: result_push_def)

lemma rows_append [simp]: "rows (xs @ ys) = rows xs + rows ys"
  by (simp add: rows_def)

lemma rows_replicate_None [simp]: "rows (replicate n None) = 0"
  by (simp add: rows_def)

lemma rows_update_Some:
  "i < length res \<Longrightarrow> rows (res[i := Some g]) = rows res + (if res ! i = None then 1 else 0)"
proof (induction res arbitrary: i)
  case Nil
  then show ?case by simp
next
  case (Cons a res)
  then show ?case by (cases i) (auto simp add: rows_def)
qed

lemma result_push_rows:
  "rows (result_push res i lg) =
     rows res + (if i < length res \<and> res ! i \<noteq> None then 0 else 1)"
proof (cases "i < length res")
  case True
  then show ?thesis by (cases "res ! i") (simp_all add: result_push_def rows_update_Some)
next
  case False
  then show ?thesis by (simp add: result_push_def) (simp add: rows_def)
qed

lemma add_log_fields [simp]:
  "p_index (add_log data w l tx col bg ps) = p_index ps"
  "p_left (add_log data w l tx col bg ps) = p_left ps"
  "p_oid (add_log data w l tx col bg ps) = p_oid ps + 1"
  by (simp_all add: add_log_def)

lemma add_log_rows:
  assumes "in_line ps"
  shows "length (p_result (add_log data w l tx col bg ps)) = p_index ps + 1"
    and "rows_due ps \<le> rows (p_result (add_log data w l tx col bg ps))"
  using assms
  by (auto simp add: add_log_def in_line_def rows_due_def result_push_length result_push_rows)

lemma letters_loop_rows:
  "in_line ps \<Longrightarrow>
   in_line (snd (snd (letters_loop t data col bg lastLeft ls textTmp isNewLine ps)))
   \<and> rows_due ps \<le> rows_due (snd (snd (letters_loop t data col bg lastLeft ls textTmp isNewLine ps)))"
proof (induction ls arbitrary: textTmp isNewLine ps)
  case Nil
  then show ?case by simp
next
  case (Cons letter rest)
  show ?case
  proof (cases "p_left ps + measureText t letter < contentWidth t")
    case True
    have "in_line (ps\<lparr>p_left := p_left ps + measureText t letter\<rparr>)"
      using Cons.prems by (simp add: in_line_def)
    from Cons.IH [OF this] show ?thesis unfolding letters_loop_fit [OF True]
      by (simp add: rows_due_def)
  next
    case False
    let ?ps1 = "add_log data (measureText t textTmp)
           (if isNewLine then contentPadding t 3 else lastLeft) textTmp col bg ps"
    let ?ps2 = "?ps1\<lparr>p_index := p_index ps + 1, p_left := contentPadding t 3 + measureText t letter\<rparr>"
    have l: "length (p_result ?ps1) = p_index ps + 1" and r: "rows_due ps \<le> rows (p_result ?ps1)"
      using add_log_rows [OF Cons.prems] by blast+
    have w: "in_line ?ps2" using l by (simp add: in_line_def)
    have "rows_due ps \<le> rows_due ?ps2" using l r by (simp add: rows_due_def)
    with Cons.IH [OF w] show ?thesis unfolding letters_loop_wrap [OF False]
      by (meson order_trans)
  qed
qed

lemma parse_word_rows:
  assumes "in_line ps"
  shows "length (p_result (parse_word t data child ps)) = p_index (parse_word t data child ps) + 1"
    and "rows_due ps \<le> rows (p_result (parse_word t data child ps))"
proof -
  define col where "col = (case getAttribute child of Some g \<Rightarrow> g ''color'' | None \<Rightarrow> Some [])"
  define bg where "bg = (case getAttribute child of Some g \<Rightarrow> g ''background'' | None \<Rightarrow> Some [])"
  have "length (p_result (parse_word t data child ps)) = p_index (parse_word t data child ps) + 1
    \<and> rows_due ps \<le> rows (p_result (parse_word t data child ps))"
  proof (cases "p_left ps + measureText t (textContent child) > contentWidth t")
    case True
    obtain tt nl ps' where l: "letters_loop t data col bg
        (p_left ps) (letters (textContent child)) [] False ps = (tt, nl, ps')"
      by (metis prod_cases3)
    have i: "in_line ps'" and d: "rows_due ps \<le> rows_due ps'"
      using letters_loop_rows [OF assms, of t data col bg
          "p_left ps" "letters (textContent child)" "[]" False]
      unfolding l by simp_all
    have eq: "parse_word t data child ps =
        add_log data (measureText t tt) (contentPadding t 3) tt col bg ps'"
      using True l by (simp add: parse_word_def Let_def col_def bg_def)
    have "length (p_result (add_log data (measureText t tt) (contentPadding t 3) tt col bg ps'))
            = p_index ps' + 1"
      and "rows_due ps' \<le> rows (p_result (add_log data (measureText t tt) (contentPadding t 3) tt col bg ps'))"
      using add_log_rows [OF i] by blast+
    with d show ?thesis unfolding eq by simp
  next
    case False
    with add_log_rows [OF assms] show ?thesis by (simp add: parse_word_def Let_def)
  qed
  then show "length (p_result (parse_word t data child ps)) = p_index (parse_word t data child ps) + 1"
    and "rows_due ps \<le> rows (p_result (parse_word t data child ps))" by simp_all
qed

lemma parse_nodes_rows:
  "in_line ps \<Longrightarrow>
   in_line (parse_nodes t data ns ps)
   \<and> rows_due ps \<le> rows_due (parse_nodes t data ns ps)
   \<and> (ns \<noteq> [] \<longrightarrow> length (p_result (parse_nodes t data ns ps)) = p_index (parse_nodes t data ns ps) + 1)"
proof (induction ns arbitrary: ps)
  case Nil
  then show ?case by simp
next
  case (Cons child rest)
  let ?ps1 = "parse_word t data child ps"
  have l: "length (p_result ?ps1) = p_index ?ps1 + 1" and r: "rows_due ps \<le> rows (p_result ?ps1)"
    using parse_word_rows [OF Cons.prems] by blast+
  have w: "in_line ?ps1" using l by (simp add: in_line_def)
  have d: "rows_due ps \<le> rows_due ?ps1" using r by (simp add: rows_due_def)
  show ?case
  proof (cases "rest = []")
    case True
    with l w d show ?thesis by simp
  next
    case False
    with Cons.IH [OF w] d show ?thesis by simp
  qed
qed

lemma parse_lines_rows:
  "at_line_start ps \<Longrightarrow>
   at_line_start (parse_lines t data ls ps)
   \<and> rows (p_result ps) + lines_with_nodes t ls \<le> rows (p_result (parse_lines t data ls ps))"
proof (induction ls arbitrary: ps)
  case Nil
  then show ?case by (simp add: lines_with_nodes_def)
next
  case (Cons line rest)
  let ?ps1 = "parse_nodes t data (childNodes t line) ps"
  let ?ps2 = "?ps1\<lparr>p_index := p_index ?ps1 + 1, p_left := contentPadding t 3\<rparr>"
  have il: "in_line ps" using Cons.prems by (simp add: in_line_def at_line_start_def)
  note n = parse_nodes_rows [OF il, of t data "childNodes t line"]
  have s2: "at_line_start ?ps2" using n by (simp add: in_line_def at_line_start_def)
  have "rows (p_result ps) + (if childNodes t line \<noteq> [] then 1 else 0) \<le> rows (p_result ?ps2)"
  proof (cases "childNodes t line = []")
    case True
    then show ?thesis by simp
  next
    case False
    with n have "rows_due ?ps1 = rows (p_result ?ps1)" by (simp add: rows_due_def)
    moreover have "rows_due ps = rows (p_result ps) + 1"
      using Cons.prems by (simp add: rows_due_def at_line_start_def)
    ultimately show ?thesis using n False by simp
  qed
  then have key: "rows (p_result ps) + (if childNodes t line \<noteq> [] then 1 else 0)
      + lines_with_nodes t rest \<le> rows (p_result ?ps2) + lines_with_nodes t rest"
    by simp
  have step: "parse_lines t data (line # rest) ps = parse_lines t data rest ?ps2" by simp
  have lwn: "lines_with_nodes t (line # rest) =
      (if childNodes t line \<noteq> [] then 1 else 0) + lines_with_nodes t rest"
    by (simp add: lines_with_nodes_def)
  from Cons.IH [OF s2] have a: "at_line_start (parse_lines t data rest ?ps2)"
    and b: "rows (p_result ?ps2) + lines_with_nodes t rest
              \<le> rows (p_result (parse_lines t data rest ?ps2))"
    by blast+
  show ?case unfolding step lwn
  proof (intro conjI)
    show "at_line_start (parse_lines t data rest ?ps2)" by (rule a)
    show "rows (p_result ps) + ((if childNodes t line \<noteq> [] then 1 else 0) + lines_with_nodes t rest)
            \<le> rows (p_result (parse_lines t data rest ?ps2))"
      using b key by linarith
  qed
qed

text \<open>
  What \<open>parse\<close> does for every text: a raw line for which the scratch element gets at
  least one child node gives at least one row, so there are at least as many rows as such
  lines.
\<close>

lemma rows_of_lines_with_nodes:
  "lines_with_nodes t (split_lines (text (prefixed t data))) \<le> rows (fst (parse t data n))"
  using parse_lines_rows [of "\<lparr>p_result = [], p_index = 0, p_left = contentPadding t 3, p_oid = n\<rparr>"
      t "prefixed t data" "split_lines (text (prefixed t data))"]
  by (simp add: parse_def Let_def at_line_start_def rows_def)

lemma rows_of_lines_with_nodes_example:
  "lines_with_nodes (sampleTerm 130 200 10)
     (split_lines (text (prefixed (sampleTerm 130 200 10) (outputEntry ''a\<newline>\<newline>b'')))) = 2
   \<and> 2 \<le> rows (fst (parse (sampleTerm 130 200 10) (outputEntry ''a\<newline>\<newline>b'') 0))"
proof -
  have h: "lines_with_nodes (sampleTerm 130 200 10)
     (split_lines (text (prefixed (sampleTerm 130 200 10) (outputEntry ''a\<newline>\<newline>b'')))) = 2"
    by code_simp
  from rows_of_lines_with_nodes [of "sampleTerm 130 200 10" "outputEntry ''a\<newline>\<newline>b''" 0] h
  show ?thesis by simp
qed

text \<open>
  C4.  The spec says that every raw line of the text gives at least one row, blank lines
  included.  \<open>parse\<close> advances \<^verbatim>\<open>index\<close> at the end of every raw line, which
  keeps a place in \<^verbatim>\<open>result\<close> for the line, but a row is only created with the first
  log of a line.  For the text \<^verbatim>\<open>a\n\nb\<close>, three raw lines, the array has length 3
  and two rows: the place of the blank line, index 1, is a hole.
\<close>

theorem blank_line_leaves_hole:
  "length (split_lines (text (outputEntry ''a\<newline>\<newline>b''))) = 3
   \<and> length (fst (parse (sampleTerm 130 200 10) (outputEntry ''a\<newline>\<newline>b'') 0)) = 3
   \<and> fst (parse (sampleTerm 130 200 10) (outputEntry ''a\<newline>\<newline>b'') 0) ! 1 = None
   \<and> rows (fst (parse (sampleTerm 130 200 10) (outputEntry ''a\<newline>\<newline>b'') 0)) = 2"
  by code_simp

subsection \<open>Logs within the content width\<close>

lemma logs_of_append [simp]: "logs_of (xs @ ys) = logs_of xs @ logs_of ys"
  by (simp add: logs_of_def)

lemma logs_of_simps [simp]:
  "logs_of [] = []"
  "logs_of (x # xs) = (case x of None \<Rightarrow> [] | Some g \<Rightarrow> g) @ logs_of xs"
  "logs_of (replicate n None) = []"
  by (simp_all add: logs_of_def)

lemma set_logs_of_result_push:
  "set (logs_of (result_push res i lg)) = insert lg (set (logs_of res))"
proof (cases "i < length res")
  case False
  then show ?thesis by (simp add: result_push_def)
next
  case True
  have split: "res = take i res @ res ! i # drop (Suc i) res"
    using True by (rule id_take_nth_drop)
  have "set (logs_of res) = set (logs_of (take i res))
      \<union> set (case res ! i of None \<Rightarrow> [] | Some g \<Rightarrow> g)
      \<union> set (logs_of (drop (Suc i) res))"
    by (subst split) (simp add: Un_assoc)
  moreover have "set (logs_of (res[i := Some g])) = set (logs_of (take i res)) \<union> set g
      \<union> set (logs_of (drop (Suc i) res))" for g
    using True by (simp add: upd_conv_take_nth_drop Un_assoc)
  ultimately show ?thesis using True
    by (cases "res ! i") (auto simp add: result_push_def)
qed

lemma add_log_all_fit:
  "all_fit t (p_result ps) \<Longrightarrow> l + w \<le> contentWidth t \<Longrightarrow>
   all_fit t (p_result (add_log data w l tx col bg ps))"
  by (simp add: all_fit_def list_all_iff add_log_def set_logs_of_result_push fits_def mk_log_def)

lemma additive_Nil: "additive t \<Longrightarrow> measureText t [] = 0"
proof -
  assume "additive t"
  then have "measureText t ([] @ []) = measureText t [] + measureText t []"
    unfolding additive_def by blast
  then show ?thesis by simp
qed

lemma concat_letters [simp]: "concat (letters word) = word"
  by (induction word) (simp_all add: letters_def)

lemma letters_loop_fits:
  assumes add: "additive t"
  shows "\<lbrakk>\<forall>letter \<in> set ls. contentPadding t 3 + measureText t letter \<le> contentWidth t;
          all_fit t (p_result ps);
          p_left ps = (if isNewLine then contentPadding t 3 else lastLeft) + measureText t textTmp;
          p_left ps \<le> contentWidth t;
          \<not> isNewLine \<longrightarrow> contentWidth t < lastLeft + measureText t (textTmp @ concat ls);
          letters_loop t data col bg lastLeft ls textTmp isNewLine ps = (tt, nl, ps')\<rbrakk>
         \<Longrightarrow> all_fit t (p_result ps') \<and> p_left ps' \<le> contentWidth t
             \<and> contentPadding t 3 + measureText t tt \<le> contentWidth t"
proof (induction ls arbitrary: textTmp isNewLine ps)
  case Nil
  then show ?case by (cases isNewLine) auto
next
  case (Cons letter rest)
  have later: "\<forall>l \<in> set rest. contentPadding t 3 + measureText t l \<le> contentWidth t"
    using Cons.prems(1) by simp
  show ?case
  proof (cases "p_left ps + measureText t letter < contentWidth t")
    case True
    let ?ps1 = "ps\<lparr>p_left := p_left ps + measureText t letter\<rparr>"
    have m: "measureText t (textTmp @ letter) = measureText t textTmp + measureText t letter"
      using add unfolding additive_def by blast
    have r: "letters_loop t data col bg lastLeft rest (textTmp @ letter) isNewLine ?ps1 = (tt, nl, ps')"
      using Cons.prems(6) unfolding letters_loop_fit [OF True] .
    show ?thesis
    proof (rule Cons.IH [OF later _ _ _ _ r])
      show "all_fit t (p_result ?ps1)" using Cons.prems(2) by simp
      show "p_left ?ps1 = (if isNewLine then contentPadding t 3 else lastLeft)
              + measureText t (textTmp @ letter)"
        using Cons.prems(3) m by simp
      show "p_left ?ps1 \<le> contentWidth t" using True by simp
      show "\<not> isNewLine \<longrightarrow> contentWidth t < lastLeft + measureText t ((textTmp @ letter) @ concat rest)"
        using Cons.prems(5) by simp
    qed
  next
    case False
    let ?base = "if isNewLine then contentPadding t 3 else lastLeft"
    let ?ps1 = "(add_log data (measureText t textTmp) ?base textTmp col bg ps)
          \<lparr>p_index := p_index ps + 1, p_left := contentPadding t 3 + measureText t letter\<rparr>"
    have r: "letters_loop t data col bg lastLeft rest letter True ?ps1 = (tt, nl, ps')"
      using Cons.prems(6) unfolding letters_loop_wrap [OF False] .
    have f: "?base + measureText t textTmp \<le> contentWidth t"
      using Cons.prems(3,4) by simp
    show ?thesis
    proof (rule Cons.IH [OF later _ _ _ _ r])
      show "all_fit t (p_result ?ps1)"
        using add_log_all_fit [OF Cons.prems(2) f] by simp
      show "p_left ?ps1 = (if True then contentPadding t 3 else lastLeft) + measureText t letter"
        by simp
      show "p_left ?ps1 \<le> contentWidth t" using Cons.prems(1) by simp
      show "\<not> True \<longrightarrow> contentWidth t < lastLeft + measureText t (letter @ concat rest)" by simp
    qed
  qed
qed

lemma parse_word_fits:
  assumes add: "additive t"
    and fit: "list_all (letter_fits t) (textContent child)"
    and A: "all_fit t (p_result ps)"
    and C: "p_left ps \<le> contentWidth t"
  shows "all_fit t (p_result (parse_word t data child ps))
         \<and> p_left (parse_word t data child ps) \<le> contentWidth t"
proof -
  define col where "col = (case getAttribute child of Some g \<Rightarrow> g ''color'' | None \<Rightarrow> Some [])"
  define bg where "bg = (case getAttribute child of Some g \<Rightarrow> g ''background'' | None \<Rightarrow> Some [])"
  show ?thesis
  proof (cases "p_left ps + measureText t (textContent child) > contentWidth t")
    case True
    obtain tt nl ps' where l: "letters_loop t data col bg
        (p_left ps) (letters (textContent child)) [] False ps = (tt, nl, ps')"
      by (metis prod_cases3)
    have eq: "parse_word t data child ps =
        add_log data (measureText t tt) (contentPadding t 3) tt col bg ps'"
      using True l by (simp add: parse_word_def Let_def col_def bg_def)
    have f: "\<forall>letter \<in> set (letters (textContent child)).
        contentPadding t 3 + measureText t letter \<le> contentWidth t"
      using fit by (auto simp add: letters_def list_all_iff letter_fits_def)
    have "all_fit t (p_result ps') \<and> p_left ps' \<le> contentWidth t
          \<and> contentPadding t 3 + measureText t tt \<le> contentWidth t"
    proof (rule letters_loop_fits [OF add f A _ C _ l])
      show "p_left ps = (if False then contentPadding t 3 else p_left ps) + measureText t []"
        using additive_Nil [OF add] by simp
      show "\<not> False \<longrightarrow> contentWidth t < p_left ps + measureText t ([] @ concat (letters (textContent child)))"
        using True by simp
    qed
    then show ?thesis unfolding eq using add_log_all_fit [of t ps'] by simp
  next
    case False
    then show ?thesis
      using add_log_all_fit [OF A, of "p_left ps" "measureText t (textContent child)"]
      by (simp add: parse_word_def Let_def)
  qed
qed

lemma parse_nodes_fits:
  assumes add: "additive t"
  shows "\<lbrakk>list_all (\<lambda>child. list_all (letter_fits t) (textContent child)) ns;
          all_fit t (p_result ps); p_left ps \<le> contentWidth t\<rbrakk>
         \<Longrightarrow> all_fit t (p_result (parse_nodes t data ns ps))
             \<and> p_left (parse_nodes t data ns ps) \<le> contentWidth t"
proof (induction ns arbitrary: ps)
  case Nil
  then show ?case by simp
next
  case (Cons child rest)
  from Cons.prems have "list_all (letter_fits t) (textContent child)" by simp
  from parse_word_fits [OF add this Cons.prems(2,3), of data]
  show ?case using Cons.IH [of "parse_word t data child ps"] Cons.prems(1) by simp
qed

lemma parse_lines_fits:
  assumes add: "additive t" and inset: "contentPadding t 3 \<le> contentWidth t"
  shows "\<lbrakk>letters_fit t ls; all_fit t (p_result ps); p_left ps \<le> contentWidth t\<rbrakk>
         \<Longrightarrow> all_fit t (p_result (parse_lines t data ls ps))"
proof (induction ls arbitrary: ps)
  case Nil
  then show ?case by simp
next
  case (Cons line rest)
  let ?ps1 = "parse_nodes t data (childNodes t line) ps"
  from Cons.prems(1)
  have "list_all (\<lambda>child. list_all (letter_fits t) (textContent child)) (childNodes t line)"
    and rest: "letters_fit t rest"
    by (simp_all add: letters_fit_def)
  from parse_nodes_fits [OF add this(1) Cons.prems(2,3), of data]
  have "all_fit t (p_result ?ps1)" by simp
  then show ?case using Cons.IH [OF rest, of "?ps1\<lparr>p_index := p_index ?ps1 + 1, p_left := contentPadding t 3\<rparr>"] inset
    by simp
qed

lemma sampleTerm_additive: "additive (sampleTerm w h cw)"
  by (simp add: additive_def sampleTerm_def algebra_simps)

lemma sampleTerm_nonneg: "0 \<le> cw \<Longrightarrow> nonneg (sampleTerm w h cw)"
  by (simp add: nonneg_def sampleTerm_def)

text \<open>
  C1, as the spec has it: when no letter of the text is wider than the content width, every
  log ends at or before the content width.  This fails: rows start at the left inset, which
  is 15 here, so a letter of width 90 in a content width of 100 is not wider than the content
  area and still ends at 105.
\<close>

theorem wide_letter_overflows:
  "measureText (sampleTerm 130 200 90) ''W'' \<le> contentWidth (sampleTerm 130 200 90)
   \<and> \<not> all_fit (sampleTerm 130 200 90) (fst (parse (sampleTerm 130 200 90) (outputEntry ''WW'') 0))"
  by code_simp

text \<open>
  C1, amended: when text measurement is additive, the left inset is at most the content
  width, and every letter of every child node of the text ends at or before the content width
  when it is placed at the left inset, then every log that \<open>parse\<close> returns satisfies
  \<open>left + width \<le> contentWidth\<close>.
\<close>

theorem segments_fit_content_width:
  assumes "additive t"
    and "contentPadding t 3 \<le> contentWidth t"
    and "letters_fit t (split_lines (text (prefixed t data)))"
  shows "all_fit t (fst (parse t data n))"
  using parse_lines_fits [OF assms(1,2,3),
      of "\<lparr>p_result = [], p_index = 0, p_left = contentPadding t 3, p_oid = n\<rparr>" "prefixed t data"]
    assms(2)
  by (simp add: parse_def Let_def all_fit_def)

theorem segments_fit_content_width_witness:
  "additive (sampleTerm 130 200 10)
   \<and> contentPadding (sampleTerm 130 200 10) 3 \<le> contentWidth (sampleTerm 130 200 10)
   \<and> letters_fit (sampleTerm 130 200 10)
        (split_lines (text (prefixed (sampleTerm 130 200 10) (inputEntry ''echo hello world''))))
   \<and> all_fit (sampleTerm 130 200 10) (fst (parse (sampleTerm 130 200 10) (inputEntry ''echo hello world'') 0))
   \<and> length (fst (parse (sampleTerm 130 200 10) (inputEntry ''echo hello world'') 0)) = 3"
proof -
  have h1: "additive (sampleTerm 130 200 10)" by (rule sampleTerm_additive)
  have h2: "contentPadding (sampleTerm 130 200 10) 3 \<le> contentWidth (sampleTerm 130 200 10)"
    by code_simp
  have h3: "letters_fit (sampleTerm 130 200 10)
        (split_lines (text (prefixed (sampleTerm 130 200 10) (inputEntry ''echo hello world''))))"
    by code_simp
  have h4: "length (fst (parse (sampleTerm 130 200 10) (inputEntry ''echo hello world'') 0)) = 3"
    by code_simp
  from segments_fit_content_width [OF h1 h2 h3, of 0] h1 h2 h3 h4 show ?thesis by simp
qed

subsection \<open>No letter is dropped\<close>

lemma logs_of_result_push:
  assumes "length res \<le> i + 1"
  shows "logs_of (result_push res i lg) = logs_of res @ [lg]"
proof (cases "i < length res")
  case False
  then show ?thesis by (simp add: result_push_def)
next
  case True
  with assms have i: "Suc i = length res" by simp
  have split: "res = take i res @ [res ! i]"
    using id_take_nth_drop [OF True] i by simp
  have upd: "res[i := Some g] = take i res @ [Some g]" for g
    using True i by (simp add: upd_conv_take_nth_drop)
  have "logs_of res = logs_of (take i res) @ (case res ! i of None \<Rightarrow> [] | Some g \<Rightarrow> g)"
    by (subst split) simp
  then show ?thesis using True
    by (cases "res ! i") (simp_all add: result_push_def upd)
qed

lemma add_log_texts:
  "in_line ps \<Longrightarrow> texts (p_result (add_log data w l tx col bg ps)) = texts (p_result ps) @ tx"
  by (simp add: add_log_def texts_def in_line_def logs_of_result_push mk_log_def)

lemma letters_loop_texts:
  "\<lbrakk>in_line ps; letters_loop t data col bg lastLeft ls textTmp isNewLine ps = (tt, nl, ps')\<rbrakk>
   \<Longrightarrow> in_line ps' \<and> texts (p_result ps') @ tt = texts (p_result ps) @ textTmp @ concat ls"
proof (induction ls arbitrary: textTmp isNewLine ps)
  case Nil
  then show ?case by simp
next
  case (Cons letter rest)
  show ?case
  proof (cases "p_left ps + measureText t letter < contentWidth t")
    case True
    let ?ps1 = "ps\<lparr>p_left := p_left ps + measureText t letter\<rparr>"
    have r: "letters_loop t data col bg lastLeft rest (textTmp @ letter) isNewLine ?ps1 = (tt, nl, ps')"
      using Cons.prems(2) unfolding letters_loop_fit [OF True] .
    have "in_line ?ps1" using Cons.prems(1) by (simp add: in_line_def)
    from Cons.IH [OF this r] show ?thesis by simp
  next
    case False
    let ?ps0 = "add_log data (measureText t textTmp)
        (if isNewLine then contentPadding t 3 else lastLeft) textTmp col bg ps"
    let ?ps1 = "?ps0\<lparr>p_index := p_index ps + 1, p_left := contentPadding t 3 + measureText t letter\<rparr>"
    have r: "letters_loop t data col bg lastLeft rest letter True ?ps1 = (tt, nl, ps')"
      using Cons.prems(2) unfolding letters_loop_wrap [OF False] .
    have "in_line ?ps1" using add_log_rows(1) [OF Cons.prems(1)] by (simp add: in_line_def)
    from Cons.IH [OF this r] add_log_texts [OF Cons.prems(1)] show ?thesis by simp
  qed
qed

lemma parse_word_texts:
  assumes "in_line ps"
  shows "texts (p_result (parse_word t data child ps)) = texts (p_result ps) @ textContent child"
proof -
  define col where "col = (case getAttribute child of Some g \<Rightarrow> g ''color'' | None \<Rightarrow> Some [])"
  define bg where "bg = (case getAttribute child of Some g \<Rightarrow> g ''background'' | None \<Rightarrow> Some [])"
  show ?thesis
  proof (cases "p_left ps + measureText t (textContent child) > contentWidth t")
    case True
    obtain tt nl ps' where l: "letters_loop t data col bg
        (p_left ps) (letters (textContent child)) [] False ps = (tt, nl, ps')"
      by (metis prod_cases3)
    have eq: "parse_word t data child ps =
        add_log data (measureText t tt) (contentPadding t 3) tt col bg ps'"
      using True l by (simp add: parse_word_def Let_def col_def bg_def)
    from letters_loop_texts [OF assms l]
    show ?thesis unfolding eq by (simp add: add_log_texts)
  next
    case False
    then show ?thesis using add_log_texts [OF assms] by (simp add: parse_word_def Let_def)
  qed
qed

lemma parse_nodes_texts:
  "in_line ps \<Longrightarrow>
   texts (p_result (parse_nodes t data ns ps)) = texts (p_result ps) @ concat (map textContent ns)"
proof (induction ns arbitrary: ps)
  case Nil
  then show ?case by simp
next
  case (Cons child rest)
  have "in_line (parse_word t data child ps)"
    using parse_word_rows(1) [OF Cons.prems] by (simp add: in_line_def)
  from Cons.IH [OF this] parse_word_texts [OF Cons.prems] show ?case by simp
qed

lemma parse_lines_texts:
  "at_line_start ps \<Longrightarrow>
   texts (p_result (parse_lines t data ls ps)) = texts (p_result ps) @ token_text t ls"
proof (induction ls arbitrary: ps)
  case Nil
  then show ?case by (simp add: token_text_def)
next
  case (Cons line rest)
  let ?ps1 = "parse_nodes t data (childNodes t line) ps"
  let ?ps2 = "?ps1\<lparr>p_index := p_index ?ps1 + 1, p_left := contentPadding t 3\<rparr>"
  have il: "in_line ps" using Cons.prems by (simp add: in_line_def at_line_start_def)
  have "at_line_start ?ps2"
    using parse_nodes_rows [OF il, of t data "childNodes t line"]
    by (simp add: in_line_def at_line_start_def)
  from Cons.IH [OF this] parse_nodes_texts [OF il, of t data "childNodes t line"]
  show ?case by (simp add: token_text_def)
qed

lemma parse_texts:
  "texts (fst (parse t data n)) = token_text t (split_lines (text (prefixed t data)))"
  using parse_lines_texts [of "\<lparr>p_result = [], p_index = 0, p_left = contentPadding t 3, p_oid = n\<rparr>"
      t "prefixed t data" "split_lines (text (prefixed t data))"]
  by (simp add: parse_def Let_def at_line_start_def texts_def)

lemma add_log_all_alone:
  "all_alone t (p_result ps) \<Longrightarrow> alone t tx \<Longrightarrow>
   all_alone t (p_result (add_log data w l tx col bg ps))"
  by (simp add: all_alone_def list_all_iff add_log_def set_logs_of_result_push mk_log_def)

lemma measure_char_le:
  assumes "additive t" and "nonneg t" and "c \<in> set word"
  shows "measureText t [c] \<le> measureText t word"
proof -
  from assms(3) obtain a b where "word = a @ [c] @ b"
    by (metis append_Cons append_Nil split_list)
  then have "measureText t word = measureText t a + (measureText t [c] + measureText t b)"
    using assms(1) unfolding additive_def by metis
  moreover have "0 \<le> measureText t a" "0 \<le> measureText t b"
    using assms(2) unfolding nonneg_def by blast+
  ultimately show ?thesis by linarith
qed

lemma letters_loop_alone:
  assumes nn: "nonneg t" and pad0: "0 \<le> contentPadding t 3"
  shows "\<lbrakk>all_alone t (p_result ps); 0 \<le> p_left ps;
          \<forall>c \<in> set textTmp. wide t c \<longrightarrow> textTmp = [c] \<and> contentWidth t < p_left ps;
          letters_loop t data col bg lastLeft (letters cs) textTmp isNewLine ps = (tt, nl, ps')\<rbrakk>
         \<Longrightarrow> all_alone t (p_result ps') \<and> 0 \<le> p_left ps' \<and> alone t tt"
proof (induction cs arbitrary: textTmp isNewLine ps)
  case Nil
  then show ?case by (auto simp add: letters_def alone_def list_all_iff)
next
  case (Cons c cs)
  have m0: "0 \<le> measureText t [c]" using nn unfolding nonneg_def by blast
  have ls: "letters (c # cs) = [c] # letters cs" by (simp add: letters_def)
  show ?case
  proof (cases "p_left ps + measureText t [c] < contentWidth t")
    case True
    let ?ps1 = "ps\<lparr>p_left := p_left ps + measureText t [c]\<rparr>"
    have r: "letters_loop t data col bg lastLeft (letters cs) (textTmp @ [c]) isNewLine ?ps1 = (tt, nl, ps')"
      using Cons.prems(4) unfolding ls letters_loop_fit [OF True] .
    have nowide: "\<not> wide t c'" if "c' \<in> set (textTmp @ [c])" for c'
    proof
      assume w: "wide t c'"
      show False
      proof (cases "c' \<in> set textTmp")
        case True
        with w Cons.prems(3) have "contentWidth t < p_left ps" by blast
        with m0 \<open>p_left ps + measureText t [c] < contentWidth t\<close> show False by linarith
      next
        case False
        with that have "c' = c" by simp
        with w have "contentWidth t < measureText t [c]" by (simp add: wide_def)
        with Cons.prems(2) \<open>p_left ps + measureText t [c] < contentWidth t\<close> show False by linarith
      qed
    qed
    show ?thesis
    proof (rule Cons.IH [OF _ _ _ r])
      show "all_alone t (p_result ?ps1)" using Cons.prems(1) by simp
      show "0 \<le> p_left ?ps1" using Cons.prems(2) m0 by simp
      show "\<forall>c' \<in> set (textTmp @ [c]). wide t c' \<longrightarrow>
              textTmp @ [c] = [c'] \<and> contentWidth t < p_left ?ps1"
        using nowide by blast
    qed
  next
    case False
    let ?ps0 = "add_log data (measureText t textTmp)
        (if isNewLine then contentPadding t 3 else lastLeft) textTmp col bg ps"
    let ?ps1 = "?ps0\<lparr>p_index := p_index ps + 1, p_left := contentPadding t 3 + measureText t [c]\<rparr>"
    have r: "letters_loop t data col bg lastLeft (letters cs) [c] True ?ps1 = (tt, nl, ps')"
      using Cons.prems(4) unfolding ls letters_loop_wrap [OF False] .
    have a: "alone t textTmp" using Cons.prems(3) by (auto simp add: alone_def list_all_iff)
    show ?thesis
    proof (rule Cons.IH [OF _ _ _ r])
      show "all_alone t (p_result ?ps1)"
        using add_log_all_alone [OF Cons.prems(1) a] by simp
      show "0 \<le> p_left ?ps1" using pad0 m0 by simp
      show "\<forall>c' \<in> set [c]. wide t c' \<longrightarrow> [c] = [c'] \<and> contentWidth t < p_left ?ps1"
        using pad0 by (simp add: wide_def)
    qed
  qed
qed

lemma parse_word_alone:
  assumes add: "additive t" and nn: "nonneg t" and pad0: "0 \<le> contentPadding t 3"
    and A: "all_alone t (p_result ps)" and P: "0 \<le> p_left ps"
  shows "all_alone t (p_result (parse_word t data child ps))
         \<and> 0 \<le> p_left (parse_word t data child ps)"
proof -
  define col where "col = (case getAttribute child of Some g \<Rightarrow> g ''color'' | None \<Rightarrow> Some [])"
  define bg where "bg = (case getAttribute child of Some g \<Rightarrow> g ''background'' | None \<Rightarrow> Some [])"
  show ?thesis
  proof (cases "p_left ps + measureText t (textContent child) > contentWidth t")
    case True
    obtain tt nl ps' where l: "letters_loop t data col bg
        (p_left ps) (letters (textContent child)) [] False ps = (tt, nl, ps')"
      by (metis prod_cases3)
    have eq: "parse_word t data child ps =
        add_log data (measureText t tt) (contentPadding t 3) tt col bg ps'"
      using True l by (simp add: parse_word_def Let_def col_def bg_def)
    have "all_alone t (p_result ps') \<and> 0 \<le> p_left ps' \<and> alone t tt"
      by (rule letters_loop_alone [OF nn pad0 A P _ l]) simp
    then show ?thesis unfolding eq by (simp add: add_log_all_alone)
  next
    case False
    have "\<not> wide t c" if "c \<in> set (textContent child)" for c
      using measure_char_le [OF add nn that] False P by (simp add: wide_def)
    then have "alone t (textContent child)" by (simp add: alone_def list_all_iff)
    moreover have "0 \<le> measureText t (textContent child)" using nn unfolding nonneg_def by blast
    ultimately show ?thesis using False P add_log_all_alone [OF A]
      by (simp add: parse_word_def Let_def)
  qed
qed

lemma parse_nodes_alone:
  assumes add: "additive t" and nn: "nonneg t" and pad0: "0 \<le> contentPadding t 3"
  shows "\<lbrakk>all_alone t (p_result ps); 0 \<le> p_left ps\<rbrakk>
         \<Longrightarrow> all_alone t (p_result (parse_nodes t data ns ps))
             \<and> 0 \<le> p_left (parse_nodes t data ns ps)"
proof (induction ns arbitrary: ps)
  case Nil
  then show ?case by simp
next
  case (Cons child rest)
  from parse_word_alone [OF add nn pad0 Cons.prems, of data child]
  show ?case using Cons.IH [of "parse_word t data child ps"] by simp
qed

lemma parse_lines_alone:
  assumes add: "additive t" and nn: "nonneg t" and pad0: "0 \<le> contentPadding t 3"
  shows "\<lbrakk>all_alone t (p_result ps); 0 \<le> p_left ps\<rbrakk>
         \<Longrightarrow> all_alone t (p_result (parse_lines t data ls ps))"
proof (induction ls arbitrary: ps)
  case Nil
  then show ?case by simp
next
  case (Cons line rest)
  let ?ps1 = "parse_nodes t data (childNodes t line) ps"
  from parse_nodes_alone [OF add nn pad0 Cons.prems, of data "childNodes t line"]
  have "all_alone t (p_result ?ps1)" by simp
  then show ?case
    using Cons.IH [of "?ps1\<lparr>p_index := p_index ?ps1 + 1, p_left := contentPadding t 3\<rparr>"] pad0
    by simp
qed

text \<open>
  C5, as the spec has it: no log has an empty text.  This fails: when the first letter of a
  word that does not fit as a whole does not fit either, the loop closes the text read so
  far, which is empty, as a log.
\<close>

theorem empty_segment_produced:
  "\<not> all_nonempty (fst (parse (sampleTerm 130 200 90) (outputEntry ''WW'') 0))"
  by code_simp

text \<open>
  C5, amended: \<open>parse\<close> drops no letter: the texts of the logs it returns, in order, make
  up the texts of the child nodes of the raw lines, in order.  When text measurement is
  additive and never negative and the left inset is not negative, a letter wider than the
  content width is the only letter of every log that holds it.
\<close>

theorem no_letter_dropped:
  "texts (fst (parse t data n)) = token_text t (split_lines (text (prefixed t data)))
   \<and> (additive t \<and> nonneg t \<and> 0 \<le> contentPadding t 3 \<longrightarrow> all_alone t (fst (parse t data n)))"
proof (intro conjI impI)
  show "texts (fst (parse t data n)) = token_text t (split_lines (text (prefixed t data)))"
    by (rule parse_texts)
  assume h: "additive t \<and> nonneg t \<and> 0 \<le> contentPadding t 3"
  then show "all_alone t (fst (parse t data n))"
    using parse_lines_alone [of t "\<lparr>p_result = [], p_index = 0, p_left = contentPadding t 3, p_oid = n\<rparr>"
        "prefixed t data" "split_lines (text (prefixed t data))"]
    by (simp add: parse_def Let_def all_alone_def)
qed

theorem no_letter_dropped_witness:
  "additive (sampleTerm 130 200 110) \<and> nonneg (sampleTerm 130 200 110)
   \<and> 0 \<le> contentPadding (sampleTerm 130 200 110) 3
   \<and> wide (sampleTerm 130 200 110) CHR ''W''
   \<and> texts (fst (parse (sampleTerm 130 200 110) (outputEntry ''WW'') 0)) = ''WW''
   \<and> all_alone (sampleTerm 130 200 110) (fst (parse (sampleTerm 130 200 110) (outputEntry ''WW'') 0))
   \<and> map text (logs_of (fst (parse (sampleTerm 130 200 110) (outputEntry ''WW'') 0)))
       = [[], ''W'', ''W'']"
proof -
  have h1: "additive (sampleTerm 130 200 110)" by (rule sampleTerm_additive)
  have h2: "nonneg (sampleTerm 130 200 110)" by (rule sampleTerm_nonneg) simp
  have h3: "0 \<le> contentPadding (sampleTerm 130 200 110) 3" by code_simp
  have h4: "wide (sampleTerm 130 200 110) CHR ''W''" by code_simp
  have h5: "token_text (sampleTerm 130 200 110)
      (split_lines (text (prefixed (sampleTerm 130 200 110) (outputEntry ''WW'')))) = ''WW''"
    by code_simp
  have h6: "map text (logs_of (fst (parse (sampleTerm 130 200 110) (outputEntry ''WW'') 0)))
      = [[], ''W'', ''W'']"
    by code_simp
  from no_letter_dropped [of "sampleTerm 130 200 110" "outputEntry ''WW''" 0] h1 h2 h3 h4 h5 h6
  show ?thesis by simp
qed

subsection \<open>The window when every row is defined\<close>

text \<open>
  What \<open>renderByTop\<close>, \<open>emit\<close> and \<open>clear\<close> do to the window.  The window of a
  scroll offset is the slice of the cache from the start index, which in units of the host is
  the offset divided by the font size plus 10, rounded up; it holds at most
  \<open>maxLength\<close> rows, is empty for an offset past the end, and is drawn without an
  exception when no row of the cache is undefined.
\<close>

lemma renderRows_defined:
  "defined_rows xs \<Longrightarrow> fst (renderRows t i xs cv) = None"
proof (induction xs arbitrary: i cv)
  case Nil
  then show ?case by simp
next
  case (Cons x xs)
  then show ?case by (cases x) (simp_all add: defined_rows_def)
qed

lemma render_defined:
  "defined_rows (renderLogs r) \<Longrightarrow> fst (render t r) = None"
proof -
  assume d: "defined_rows (renderLogs r)"
  let ?r0 = "renderTopbar t (renderBackground t r)"
  have "renderLogs ?r0 = renderLogs r" by (simp add: renderTopbar_def renderBackground_def)
  with d have "fst (renderRows t 0 (renderLogs ?r0) (canvas ?r0)) = None"
    by (simp add: renderRows_defined)
  then show ?thesis
    by (cases "renderRows t 0 (renderLogs ?r0) (canvas ?r0)")
       (simp add: render_def renderContent_def Let_def)
qed

lemma render_renderLogs: "renderLogs (snd (render t r)) = renderLogs r"
  by (simp add: render_def renderContent_def renderTopbar_def renderBackground_def Let_def
      split: prod.splits option.splits)

lemma slice_length: "0 \<le> m \<Longrightarrow> length (slice xs s (s + m)) \<le> nat m"
  by (auto simp add: slice_def Let_def)

lemma slice_nonneg:
  "0 \<le> s \<Longrightarrow> 0 \<le> m \<Longrightarrow> slice xs s (s + m) = take (nat m) (drop (nat s) xs)"
  by (auto simp add: slice_def Let_def min_def)

lemma slice_past_end: "int (length xs) \<le> s \<Longrightarrow> 0 \<le> m \<Longrightarrow> slice xs s (s + m) = []"
  by (auto simp add: slice_def Let_def)

lemma startIndex_host_units:
  "pixelRatio t \<noteq> 0 \<Longrightarrow> startIndex t tp = \<lceil>tp / (fontSize t + 10)\<rceil>"
proof -
  assume p: "pixelRatio t \<noteq> 0"
  have "fontSizePx t + logGap t = (fontSize t + 10) * pixelRatio t"
    by (simp add: fontSizePx_def logGap_def algebra_simps)
  then have "(tp * pixelRatio t) / (fontSizePx t + logGap t) = tp / (fontSize t + 10)"
    using p by simp
  then show ?thesis by (simp add: startIndex_def)
qed

lemma startIndex_mono:
  "0 < pixelRatio t \<Longrightarrow> 0 < fontSize t + 10 \<Longrightarrow> tp \<le> tp' \<Longrightarrow> startIndex t tp \<le> startIndex t tp'"
  by (simp add: startIndex_host_units ceiling_mono divide_right_mono)

lemma renderByTop_window:
  "renderLogs (snd (renderByTop t tp r))
     = slice (cacheLogs r) (startIndex t tp) (startIndex t tp + maxLength t)
   \<and> cacheLogs (snd (renderByTop t tp r)) = cacheLogs r
   \<and> (pixelRatio t \<noteq> 0 \<longrightarrow> startIndex t tp = \<lceil>tp / (fontSize t + 10)\<rceil>)
   \<and> (0 \<le> maxLength t \<longrightarrow> length (renderLogs (snd (renderByTop t tp r))) \<le> nat (maxLength t))
   \<and> (0 \<le> startIndex t tp \<and> 0 \<le> maxLength t \<longrightarrow>
        renderLogs (snd (renderByTop t tp r))
          = take (nat (maxLength t)) (drop (nat (startIndex t tp)) (cacheLogs r)))
   \<and> (int (length (cacheLogs r)) \<le> startIndex t tp \<and> 0 \<le> maxLength t \<longrightarrow>
        renderLogs (snd (renderByTop t tp r)) = [] \<and> fst (renderByTop t tp r) = None)
   \<and> (defined_rows (cacheLogs r) \<longrightarrow> fst (renderByTop t tp r) = None)"
proof -
  let ?w = "slice (cacheLogs r) (startIndex t tp) (startIndex t tp + maxLength t)"
  have rb: "renderByTop t tp r = render t (r\<lparr>renderLogs := ?w\<rparr>)"
    by (simp add: renderByTop_def)
  have w: "renderLogs (snd (renderByTop t tp r)) = ?w"
    unfolding rb by (simp add: render_renderLogs)
  have c: "cacheLogs (snd (renderByTop t tp r)) = cacheLogs r"
    unfolding rb by (simp add: render_cacheLogs)
  have e: "fst (renderByTop t tp r) = None" if "defined_rows ?w"
    unfolding rb using that by (simp add: render_defined)
  have sub: "defined_rows ?w" if "defined_rows (cacheLogs r)"
  proof -
    have "set ?w \<subseteq> set (cacheLogs r)"
      unfolding slice_def Let_def by (meson set_take_subset set_drop_subset subset_trans)
    with that show ?thesis by (auto simp add: defined_rows_def list_all_iff)
  qed
  show ?thesis
    unfolding w c
    using e sub slice_length [of "maxLength t" "cacheLogs r" "startIndex t tp"]
      slice_nonneg [of "startIndex t tp" "maxLength t" "cacheLogs r"]
      slice_past_end [of "cacheLogs r" "startIndex t tp" "maxLength t"]
      startIndex_host_units [of t tp]
    by (auto simp add: defined_rows_def)
qed

lemma renderByTop_window_witness:
  "pixelRatio (sampleTerm 130 100 10) \<noteq> 0
   \<and> 0 \<le> maxLength (sampleTerm 130 100 10)
   \<and> 0 \<le> startIndex (sampleTerm 130 100 10) 50
   \<and> defined_rows (cacheLogs (after_emit (sampleTerm 130 100 10) (outputEntry ''a\<newline>b\<newline>c'')
         (constructor (sampleTerm 130 100 10))))
   \<and> startIndex (sampleTerm 130 100 10) 50 = 2
   \<and> maxLength (sampleTerm 130 100 10) = 1
   \<and> fst (renderByTop (sampleTerm 130 100 10) 50
        (after_emit (sampleTerm 130 100 10) (outputEntry ''a\<newline>b\<newline>c'')
           (constructor (sampleTerm 130 100 10)))) = None
   \<and> renderLogs (snd (renderByTop (sampleTerm 130 100 10) 50
        (after_emit (sampleTerm 130 100 10) (outputEntry ''a\<newline>b\<newline>c'')
           (constructor (sampleTerm 130 100 10)))))
      = take (nat (maxLength (sampleTerm 130 100 10)))
          (drop (nat (startIndex (sampleTerm 130 100 10) 50))
             (cacheLogs (after_emit (sampleTerm 130 100 10) (outputEntry ''a\<newline>b\<newline>c'')
                (constructor (sampleTerm 130 100 10)))))"
proof -
  let ?t = "sampleTerm 130 100 10"
  let ?r = "after_emit ?t (outputEntry ''a\<newline>b\<newline>c'') (constructor ?t)"
  have h1: "pixelRatio ?t \<noteq> 0" by (simp add: sampleTerm_def)
  have h2: "maxLength ?t = 1" by code_simp
  have h3: "startIndex ?t 50 = 2" by code_simp
  have h4: "defined_rows (cacheLogs ?r)" by code_simp
  have h5: "0 \<le> maxLength ?t" "0 \<le> startIndex ?t 50" using h2 h3 by simp_all
  from renderByTop_window [of ?t 50 ?r] h1 h2 h3 h4 h5 show ?thesis by blast
qed

text \<open>
  After \<open>emit\<close> the window is the tail of the cache: its last \<open>maxLength\<close> rows
  when \<open>maxLength\<close> is at least 1, and, since \<^verbatim>\<open>slice(-0)\<close> is
  \<^verbatim>\<open>slice(0)\<close>, the whole cache when \<open>maxLength\<close> is 0.
\<close>

lemma emit_renderLogs:
  "renderLogs (after_emit t data r) = slice_from (cacheLogs (after_emit t data r)) (- maxLength t)"
proof -
  define r1 where "r1 = (if replace data = Some True then r\<lparr>cacheLogs := butlast (cacheLogs r)\<rparr> else r)"
  obtain logs d n where p: "parse t data (nextOid r1) = (logs, d, n)"
    by (metis prod_cases3)
  define r3 where "r3 = r1\<lparr>cacheLogs := cacheLogs r1 @ logs, nextOid := n,
       renderLogs := slice_from (cacheLogs r1 @ logs) (- maxLength t)\<rparr>"
  have em: "after_emit t data r = snd (render t r3)"
    using p unfolding after_emit_def emit_def Let_def r1_def [symmetric]
    by (simp add: r3_def split: prod.splits)
  show ?thesis unfolding em by (simp add: render_renderLogs render_cacheLogs r3_def)
qed

lemma slice_from_tail:
  "1 \<le> m \<Longrightarrow> slice_from xs (- m) = drop (length xs - nat m) xs"
  by (auto simp add: slice_from_def slice_def Let_def max_def nat_diff_distrib)

lemma slice_from_zero: "slice_from xs 0 = xs"
  by (simp add: slice_from_def slice_def Let_def)

lemma emit_window_from_tail:
  "(1 \<le> maxLength t \<longrightarrow>
      renderLogs (after_emit t data r)
        = drop (length (cacheLogs (after_emit t data r)) - nat (maxLength t))
            (cacheLogs (after_emit t data r))
      \<and> length (renderLogs (after_emit t data r))
        = min (length (cacheLogs (after_emit t data r))) (nat (maxLength t)))
   \<and> (maxLength t = 0 \<longrightarrow> renderLogs (after_emit t data r) = cacheLogs (after_emit t data r))"
  by (auto simp add: emit_renderLogs slice_from_tail slice_from_zero)

lemma emit_window_from_tail_witness:
  "1 \<le> maxLength (sampleTerm 130 100 10)
   \<and> renderLogs (after_emit (sampleTerm 130 100 10) (outputEntry ''a\<newline>b\<newline>c'')
        (constructor (sampleTerm 130 100 10)))
      = drop (length (cacheLogs (after_emit (sampleTerm 130 100 10) (outputEntry ''a\<newline>b\<newline>c'')
                (constructor (sampleTerm 130 100 10)))) - nat (maxLength (sampleTerm 130 100 10)))
          (cacheLogs (after_emit (sampleTerm 130 100 10) (outputEntry ''a\<newline>b\<newline>c'')
             (constructor (sampleTerm 130 100 10))))
   \<and> length (cacheLogs (after_emit (sampleTerm 130 100 10) (outputEntry ''a\<newline>b\<newline>c'')
        (constructor (sampleTerm 130 100 10)))) = 3
   \<and> maxLength (sampleTerm 130 70 10) = 0
   \<and> renderLogs (after_emit (sampleTerm 130 70 10) (outputEntry ''a\<newline>b\<newline>c'')
        (constructor (sampleTerm 130 70 10)))
      = cacheLogs (after_emit (sampleTerm 130 70 10) (outputEntry ''a\<newline>b\<newline>c'')
        (constructor (sampleTerm 130 70 10)))"
proof -
  have h1: "maxLength (sampleTerm 130 100 10) = 1" by code_simp
  then have h1': "1 \<le> maxLength (sampleTerm 130 100 10)" by simp
  have h2: "maxLength (sampleTerm 130 70 10) = 0" by code_simp
  have h3: "length (cacheLogs (after_emit (sampleTerm 130 100 10) (outputEntry ''a\<newline>b\<newline>c'')
        (constructor (sampleTerm 130 100 10)))) = 3" by code_simp
  from emit_window_from_tail [of "sampleTerm 130 100 10" "outputEntry ''a\<newline>b\<newline>c''"
      "constructor (sampleTerm 130 100 10)"]
    emit_window_from_tail [of "sampleTerm 130 70 10" "outputEntry ''a\<newline>b\<newline>c''"
      "constructor (sampleTerm 130 70 10)"]
    h1' h2 h3
  show ?thesis by blast
qed

text \<open>\<open>clear\<close> empties the cache and the window, never throws and sends nothing; the
  start index grows with the offset.\<close>

lemma clear_empties:
  "cacheLogs (snd (clear t r)) = [] \<and> renderLogs (snd (clear t r)) = []
   \<and> fst (clear t r) = None \<and> sent r (snd (clear t r)) = []"
proof -
  let ?r0 = "r\<lparr>cacheLogs := [], renderLogs := []\<rparr>"
  have c: "clear t r = render t ?r0" by (simp add: clear_def)
  have e: "\<not> renderEditable t (snd (render t ?r0))"
    using renderEditable_cong [of "snd (render t ?r0)" ?r0 t]
    by (simp add: render_cacheLogs render_renderLogs renderEditable_def cacheEditable_def
        lastLog_def lastSlot_def)
  have "sent ?r0 (snd (render t ?r0)) = []"
    using render_sent_none [of t ?r0 "fst (render t ?r0)" "snd (render t ?r0)"] e by simp
  then have s: "sent r (snd (render t ?r0)) = []" by (simp add: sent_def)
  have d: "defined_rows (renderLogs ?r0)" by (simp add: defined_rows_def)
  show ?thesis unfolding c using s render_defined [OF d]
    by (simp add: render_cacheLogs render_renderLogs)
qed

lemma startIndex_monotone:
  assumes "0 < pixelRatio t" and "0 < fontSize t + 10" and "tp \<le> tp'"
  shows "startIndex t tp \<le> startIndex t tp'"
  using assms by (rule startIndex_mono)

lemma startIndex_monotone_witness:
  "0 < pixelRatio (sampleTerm 130 100 10) \<and> 0 < fontSize (sampleTerm 130 100 10) + 10
   \<and> (28::rat) \<le> 50
   \<and> startIndex (sampleTerm 130 100 10) 28 \<le> startIndex (sampleTerm 130 100 10) 50"
proof -
  have h1: "0 < pixelRatio (sampleTerm 130 100 10)" by (simp add: sampleTerm_def)
  have h2: "0 < fontSize (sampleTerm 130 100 10) + 10" by (simp add: sampleTerm_def)
  have h3: "(28::rat) \<le> 50" by simp
  from startIndex_monotone [OF h1 h2 h3] h1 h2 h3 show ?thesis by blast
qed

end
